theory Spec2Isabelle
  imports Complex_Main "HOL-Library.Multiset" "HOL-Library.Char_ord" "HOL-Library.List_Lexorder"
begin

section \<open>JavaScript numbers: IEEE-754 binary64 values\<close>

text \<open>
  A JavaScript number is a double.  \<open>Fin x\<close> is a finite double with value \<open>x\<close>;
  every arithmetic result is rounded by \<open>fl\<close> to the nearest double, ties to the even
  significand, overflowing to an infinity.  The two zeros are identified: the code under
  study never divides by an unguarded zero, and every other operation it uses (sum,
  difference, product, truthiness, the sign of a comparator) gives the same result for
  \<open>+0\<close> and \<open>-0\<close> up to the sign of a zero.
\<close>

datatype jsnum = NaN | PInf | NInf | Fin real

function ilog2 :: "int \<Rightarrow> int" where
  "ilog2 n = (if n < 2 then 0 else 1 + ilog2 (n div 2))"
  by pat_completeness auto
termination
proof (relation "measure nat")
  show "wf (measure nat)"
    by simp
next
  fix n :: int
  assume "\<not> n < 2"
  then have "n div 2 < n" and "0 < n"
    by linarith+
  then show "(n div 2, n) \<in> measure nat"
    by simp
qed

declare ilog2.simps [simp del]

text \<open>The binary exponent \<open>\<lfloor>log\<^sub>2 \<bar>x\<bar>\<rfloor>\<close> of a nonzero real.\<close>

definition expo :: "real \<Rightarrow> int" where
  "expo x = (if 1 \<le> \<bar>x\<bar> then ilog2 \<lfloor>\<bar>x\<bar>\<rfloor>
             else - (1 + ilog2 (\<lceil>1 / \<bar>x\<bar>\<rceil> - 1)))"

definition round_even :: "real \<Rightarrow> int" where
  "round_even x = (let n = \<lfloor>x\<rfloor>; r = x - of_int n in
      if r < 1 / 2 then n else if 1 / 2 < r then n + 1 else if even n then n else n + 1)"

text \<open>
  Rounding to binary64: 53 significant bits, least exponent \<open>-1022\<close> (below it the
  spacing stays \<open>2\<^sup>-\<^sup>1\<^sup>0\<^sup>7\<^sup>4\<close>), overflow from \<open>2\<^sup>1\<^sup>0\<^sup>2\<^sup>4\<close>.
\<close>

definition fl :: "real \<Rightarrow> jsnum" where
  "fl x = (if x = 0 then Fin 0 else
     let u = 2 powi (max (expo x) (- 1022) - 52);
         r = of_int (round_even (x / u)) * u
     in if 2 ^ 1024 \<le> r then PInf else if r \<le> - (2 ^ 1024) then NInf else Fin r)"

fun fneg :: "jsnum \<Rightarrow> jsnum" where
  "fneg NaN = NaN"
| "fneg PInf = NInf"
| "fneg NInf = PInf"
| "fneg (Fin a) = Fin (- a)"

fun fadd :: "jsnum \<Rightarrow> jsnum \<Rightarrow> jsnum" where
  "fadd (Fin a) (Fin b) = fl (a + b)"
| "fadd NaN y = NaN"
| "fadd x NaN = NaN"
| "fadd PInf NInf = NaN"
| "fadd NInf PInf = NaN"
| "fadd PInf y = PInf"
| "fadd NInf y = NInf"
| "fadd (Fin a) y = y"

definition fsub :: "jsnum \<Rightarrow> jsnum \<Rightarrow> jsnum" where
  "fsub x y = fadd x (fneg y)"

fun fmul :: "jsnum \<Rightarrow> jsnum \<Rightarrow> jsnum" where
  "fmul (Fin a) (Fin b) = fl (a * b)"
| "fmul NaN y = NaN"
| "fmul x NaN = NaN"
| "fmul (Fin a) y = (if a = 0 then NaN else if (0 < a) = (y = PInf) then PInf else NInf)"
| "fmul x (Fin b) = (if b = 0 then NaN else if (0 < b) = (x = PInf) then PInf else NInf)"
| "fmul x y = (if x = y then PInf else NInf)"

text \<open>
  Division.  A finite nonzero number over zero is an infinity whose sign depends on the
  sign of the zero; the model takes the zero as \<open>+0\<close>.  No division of the code reaches
  that case: both divisors are tested for truthiness first.
\<close>

fun fdiv :: "jsnum \<Rightarrow> jsnum \<Rightarrow> jsnum" where
  "fdiv (Fin a) (Fin b) =
     (if b = 0 then (if a = 0 then NaN else if 0 < a then PInf else NInf) else fl (a / b))"
| "fdiv NaN y = NaN"
| "fdiv x NaN = NaN"
| "fdiv (Fin a) y = Fin 0"
| "fdiv x (Fin b) = (if (0 \<le> b) = (x = PInf) then PInf else NInf)"
| "fdiv x y = NaN"

text \<open>\<open>Number.isNaN\<close> on a number, and the truthiness of a number (\<open>x ? a : b\<close>, \<open>x || y\<close>).\<close>

definition Number_isNaN :: "jsnum \<Rightarrow> bool" where
  "Number_isNaN x = (x = NaN)"

definition truthy :: "jsnum \<Rightarrow> bool" where
  "truthy x = (x \<noteq> NaN \<and> x \<noteq> Fin 0)"

text \<open>\<open>x || 0\<close> on a number.\<close>

definition or_zero :: "jsnum \<Rightarrow> jsnum" where
  "or_zero x = (if truthy x then x else Fin 0)"

text \<open>The relations \<open>>\<close> and \<open>>=\<close> of the language on numbers: false on \<open>NaN\<close>.\<close>

fun num_gt :: "jsnum \<Rightarrow> jsnum \<Rightarrow> bool" where
  "num_gt NaN y = False"
| "num_gt x NaN = False"
| "num_gt (Fin a) (Fin b) = (b < a)"
| "num_gt PInf y = (y \<noteq> PInf)"
| "num_gt x NInf = (x \<noteq> NInf)"
| "num_gt x y = False"

definition num_ge :: "jsnum \<Rightarrow> jsnum \<Rightarrow> bool" where
  "num_ge x y = (x \<noteq> NaN \<and> y \<noteq> NaN \<and> (x = y \<or> num_gt x y))"


section \<open>Values, records and conversions\<close>

text \<open>
  The values a cell of a parsed record can hold: \<open>undefined\<close> (also the result of reading
  a missing key), \<open>null\<close>, a boolean, a number, a string, or a \<open>Date\<close> object, given by its
  identity and its time value.  Equality of these values is the \<open>SameValueZero\<close> comparison
  that a \<open>Map\<close> uses for its keys.
\<close>

datatype jsval = VUndefined | VNull | VBool bool | VNum jsnum | VStr string | VDate nat jsnum

type_synonym RawRecord = "string \<rightharpoonup> jsval"

text \<open>Reading a property, \<open>r.k\<close>.\<close>

definition get_prop :: "RawRecord \<Rightarrow> string \<Rightarrow> jsval" where
  "get_prop r k = (case r k of None \<Rightarrow> VUndefined | Some v \<Rightarrow> v)"

text \<open>\<open>a ?? b\<close>\<close>

definition nullish :: "jsval \<Rightarrow> jsval \<Rightarrow> jsval" where
  "nullish a b = (if a = VUndefined \<or> a = VNull then b else a)"

subsection \<open>\<open>Number(s)\<close> on a string\<close>

text \<open>
  A string is held as the list of the bytes of its UTF-8 encoding.  \<open>Number\<close> strips from
  both ends of a string the characters of \<open>StrWhiteSpaceChar\<close>: the white space (TAB, VT,
  FF, U+FEFF and the space separators U+0020, U+00A0, U+1680, U+2000 to U+200A, U+202F,
  U+205F, U+3000) and the line terminators (LF, CR, U+2028, U+2029).  In UTF-8 they take
  one byte (\<open>is_ws\<close>), two bytes (\<open>is_ws2\<close>) or three bytes (\<open>is_ws3\<close>).
\<close>

definition is_ws :: "char \<Rightarrow> bool" where
  "is_ws c = (c \<in> {CHR 0x09, CHR 0x0A, CHR 0x0B, CHR 0x0C, CHR 0x0D, CHR 0x20})"

definition is_ws2 :: "char \<Rightarrow> char \<Rightarrow> bool" where
  "is_ws2 a b = (a = CHR 0xC2 \<and> b = CHR 0xA0)"

definition is_ws3 :: "char \<Rightarrow> char \<Rightarrow> char \<Rightarrow> bool" where
  "is_ws3 a b c =
     (a = CHR 0xE1 \<and> b = CHR 0x9A \<and> c = CHR 0x80 \<or>
      a = CHR 0xE2 \<and> b = CHR 0x80 \<and>
        (0x80 \<le> (of_char c :: nat) \<and> (of_char c :: nat) \<le> 0x8A \<or> c = CHR 0xA8 \<or> c = CHR 0xA9 \<or>
         c = CHR 0xAF) \<or>
      a = CHR 0xE2 \<and> b = CHR 0x81 \<and> c = CHR 0x9F \<or>
      a = CHR 0xE3 \<and> b = CHR 0x80 \<and> c = CHR 0x80 \<or>
      a = CHR 0xEF \<and> b = CHR 0xBB \<and> c = CHR 0xBF)"

text \<open>Stripping at the start of a string.\<close>

fun trimStart :: "string \<Rightarrow> string" where
  "trimStart (a # b # c # s) =
     (if is_ws a then trimStart (b # c # s)
      else if is_ws2 a b then trimStart (c # s)
      else if is_ws3 a b c then trimStart s
      else a # b # c # s)"
| "trimStart [a, b] = (if is_ws a then trimStart [b] else if is_ws2 a b then [] else [a, b])"
| "trimStart [a] = (if is_ws a then [] else [a])"
| "trimStart [] = []"

text \<open>Stripping at the end of a string, on the reversed string: the last byte comes first.\<close>

fun trimEnd_rev :: "string \<Rightarrow> string" where
  "trimEnd_rev (c # b # a # s) =
     (if is_ws c then trimEnd_rev (b # a # s)
      else if is_ws2 b c then trimEnd_rev (a # s)
      else if is_ws3 a b c then trimEnd_rev s
      else c # b # a # s)"
| "trimEnd_rev [b, a] = (if is_ws b then trimEnd_rev [a] else if is_ws2 a b then [] else [b, a])"
| "trimEnd_rev [a] = (if is_ws a then [] else [a])"
| "trimEnd_rev [] = []"

definition trim :: "string \<Rightarrow> string" where
  "trim s = rev (trimEnd_rev (rev (trimStart s)))"

definition radix_val :: "char \<Rightarrow> nat" where
  "radix_val c = (let n = (of_char c :: nat) in
     if 48 \<le> n \<and> n \<le> 57 then n - 48
     else if 97 \<le> n \<and> n \<le> 102 then n - 87
     else if 65 \<le> n \<and> n \<le> 70 then n - 55
     else 99)"

definition is_digit :: "nat \<Rightarrow> char \<Rightarrow> bool" where
  "is_digit b c = (radix_val c < b)"

definition digits_val :: "nat \<Rightarrow> string \<Rightarrow> int" where
  "digits_val b s = foldl (\<lambda>a c. int b * a + int (radix_val c)) 0 s"

definition all_digits :: "nat \<Rightarrow> string \<Rightarrow> bool" where
  "all_digits b s = (s \<noteq> [] \<and> list_all (is_digit b) s)"

text \<open>An optional exponent part: \<open>e\<close> or \<open>E\<close>, an optional sign, digits.\<close>

definition parse_exp :: "string \<Rightarrow> int option" where
  "parse_exp s =
     (if s = [] then Some 0
      else if hd s = CHR ''e'' \<or> hd s = CHR ''E'' then
        (let t = tl s in
         if t \<noteq> [] \<and> hd t = CHR ''+'' then
           (if all_digits 10 (tl t) then Some (digits_val 10 (tl t)) else None)
         else if t \<noteq> [] \<and> hd t = CHR ''-'' then
           (if all_digits 10 (tl t) then Some (- digits_val 10 (tl t)) else None)
         else if all_digits 10 t then Some (digits_val 10 t) else None)
      else None)"

definition StrUnsignedDecimalLiteral :: "string \<Rightarrow> jsnum" where
  "StrUnsignedDecimalLiteral s =
     (if s = ''Infinity'' then PInf
      else
        let ip = takeWhile (is_digit 10) s;
            r1 = dropWhile (is_digit 10) s;
            dot = (r1 \<noteq> [] \<and> hd r1 = CHR ''.'');
            fp = (if dot then takeWhile (is_digit 10) (tl r1) else []);
            r2 = (if dot then dropWhile (is_digit 10) (tl r1) else r1)
        in if ip = [] \<and> fp = [] then NaN
           else case parse_exp r2 of
                  None \<Rightarrow> NaN
                | Some e \<Rightarrow> fl (of_int (digits_val 10 (ip @ fp)) * 10 powi (e - int (length fp))))"

definition NonDecimalIntegerLiteral :: "nat \<Rightarrow> string \<Rightarrow> jsnum" where
  "NonDecimalIntegerLiteral b ds = (if all_digits b ds then fl (of_int (digits_val b ds)) else NaN)"

definition StringToNumber :: "string \<Rightarrow> jsnum" where
  "StringToNumber str =
     (let s = trim str in
      if s = [] then Fin 0
      else if hd s = CHR ''+'' then StrUnsignedDecimalLiteral (tl s)
      else if hd s = CHR ''-'' then fneg (StrUnsignedDecimalLiteral (tl s))
      else if take 2 s = ''0x'' \<or> take 2 s = ''0X'' then NonDecimalIntegerLiteral 16 (drop 2 s)
      else if take 2 s = ''0o'' \<or> take 2 s = ''0O'' then NonDecimalIntegerLiteral 8 (drop 2 s)
      else if take 2 s = ''0b'' \<or> take 2 s = ''0B'' then NonDecimalIntegerLiteral 2 (drop 2 s)
      else StrUnsignedDecimalLiteral s)"

text \<open>\<open>Number(v)\<close>: a \<open>Date\<close> object converts to its time value.\<close>

fun ToNumber :: "jsval \<Rightarrow> jsnum" where
  "ToNumber VUndefined = NaN"
| "ToNumber VNull = Fin 0"
| "ToNumber (VBool b) = (if b then Fin 1 else Fin 0)"
| "ToNumber (VNum n) = n"
| "ToNumber (VStr s) = StringToNumber s"
| "ToNumber (VDate i t) = t"

text \<open>The global \<open>isNaN(v)\<close> converts its argument to a number first.\<close>

definition isNaN :: "jsval \<Rightarrow> bool" where
  "isNaN v = (ToNumber v = NaN)"


section \<open>Dates\<close>

text \<open>
  What the host supplies: \<open>Date.parse\<close> on a string (outside the ISO formats the
  result is implementation-defined) and the offset of local time from UTC, in
  milliseconds, at a given UTC time value.
\<close>

record Env =
  date_parse :: "string \<Rightarrow> jsnum"
  local_tza :: "int \<Rightarrow> int"

text \<open>A \<open>Date\<close> object is its time value: \<open>NaN\<close>, or an integral number of milliseconds.\<close>

type_synonym Date = jsnum

definition TimeClip :: "jsnum \<Rightarrow> jsnum" where
  "TimeClip t = (case t of
       Fin x \<Rightarrow> if 8640000000000000 < \<bar>x\<bar> then NaN
                else Fin (of_int (if 0 \<le> x then \<lfloor>x\<rfloor> else \<lceil>x\<rceil>))
     | _ \<Rightarrow> NaN)"

text \<open>\<open>new Date(v)\<close> with one argument.\<close>

definition new_Date :: "Env \<Rightarrow> jsval \<Rightarrow> Date" where
  "new_Date env v = TimeClip (case v of
       VDate i t \<Rightarrow> t
     | VStr s \<Rightarrow> date_parse env s
     | _ \<Rightarrow> ToNumber v)"

definition getTime :: "Date \<Rightarrow> jsnum" where
  "getTime dt = dt"

definition toDate :: "Env \<Rightarrow> jsval \<Rightarrow> Date option" where
  "toDate env d = (let dt = new_Date env d in if isNaN (VNum (getTime dt)) then None else Some dt)"

subsection \<open>Calendar fields of a time value\<close>

definition msPerDay :: int where
  "msPerDay = 86400000"

definition Day :: "int \<Rightarrow> int" where
  "Day t = t div msPerDay"

definition DaysInYear :: "int \<Rightarrow> int" where
  "DaysInYear y = (if y mod 4 \<noteq> 0 then 365 else if y mod 100 \<noteq> 0 then 366
                   else if y mod 400 \<noteq> 0 then 365 else 366)"

definition DayFromYear :: "int \<Rightarrow> int" where
  "DayFromYear y = 365 * (y - 1970) + (y - 1969) div 4 - (y - 1901) div 100 + (y - 1601) div 400"

text \<open>The largest year that starts on or before day \<open>d\<close>, searched upwards from \<open>y\<close>.\<close>

function year_search :: "int \<Rightarrow> int \<Rightarrow> int" where
  "year_search d y = (if DayFromYear (y + 1) \<le> d then year_search d (y + 1) else y)"
  by pat_completeness auto
termination
proof (relation "measure (\<lambda>(d, y). nat (d - DayFromYear (y + 1) + 1))")
  show "wf (measure (\<lambda>(d, y). nat (d - DayFromYear (y + 1) + 1)))"
    by simp
next
  fix d y :: int
  assume le: "DayFromYear (y + 1) \<le> d"
  have step: "DayFromYear y + 365 \<le> DayFromYear (y + 1)" for y
  proof -
      have a: "(y - 1969) div 4 \<le> (y - 1968) div 4"
        by (rule zdiv_mono1) simp_all
      have c: "(y - 1601) div 400 \<le> (y - 1600) div 400"
        by (rule zdiv_mono1) simp_all
      have b: "(y - 1900) div 100 - (y - 1901) div 100 \<le> (y - 1968) div 4 - (y - 1969) div 4"
      proof (cases "(y - 1900) mod 100 = 0")
        case True
        then have "100 dvd (y - 1900)" by (simp add: dvd_eq_mod_eq_0)
        then obtain q where q: "y - 1900 = 100 * q" by (rule dvdE)
        have y: "y = 100 * q + 1900" using q by simp
        have "(100 * q - 68) div 4 = 25 * q - 17" "(100 * q - 69) div 4 = 25 * q - 18"
             "(100 * q) div 100 = q" "(100 * q - 1) div 100 = q - 1"
          by linarith+
        then show ?thesis unfolding y by simp
      next
        case False
        define r where "r = (y - 1900) mod 100"
        have "0 \<le> r" and r2: "r < 100" unfolding r_def by simp_all
        moreover have "r \<noteq> 0" using False unfolding r_def by simp
        ultimately have r: "1 \<le> r" "r < 100" by simp_all
        have e: "y - 1901 = 100 * ((y - 1900) div 100) + (r - 1)"
          unfolding r_def by (simp add: algebra_simps)
        have "(y - 1901) div 100 = (y - 1900) div 100"
          by (rule int_div_pos_eq[OF e]) (use r in simp_all)
        then have "(y - 1900) div 100 = (y - 1901) div 100" by simp
        then show ?thesis using a by simp
      qed
      show ?thesis
        unfolding DayFromYear_def using a b c by simp
    qed
  from le step[of "y + 1"]
  show "((d, y + 1), (d, y)) \<in> measure (\<lambda>(d, y). nat (d - DayFromYear (y + 1) + 1))"
    by simp
qed

declare year_search.simps [simp del]

definition YearFromTime :: "int \<Rightarrow> int" where
  "YearFromTime t = (let d = Day t in
     year_search d (1970 + (if 0 \<le> d then d div 366 else d div 365)))"

definition InLeapYear :: "int \<Rightarrow> int" where
  "InLeapYear t = (if DaysInYear (YearFromTime t) = 366 then 1 else 0)"

definition DayWithinYear :: "int \<Rightarrow> int" where
  "DayWithinYear t = Day t - DayFromYear (YearFromTime t)"

definition MonthFromTime :: "int \<Rightarrow> int" where
  "MonthFromTime t = (let d = DayWithinYear t; l = InLeapYear t in
     if d < 31 then 0
     else if d < 59 + l then 1
     else if d < 90 + l then 2
     else if d < 120 + l then 3
     else if d < 151 + l then 4
     else if d < 181 + l then 5
     else if d < 212 + l then 6
     else if d < 243 + l then 7
     else if d < 273 + l then 8
     else if d < 304 + l then 9
     else if d < 334 + l then 10
     else 11)"

definition LocalTime :: "Env \<Rightarrow> int \<Rightarrow> int" where
  "LocalTime env t = t + local_tza env t"

text \<open>
  \<open>getFullYear\<close> and \<open>getMonth\<close> give \<open>NaN\<close> (here \<open>None\<close>) on an invalid date and
  an integer otherwise.
\<close>

definition getFullYear :: "Env \<Rightarrow> Date \<Rightarrow> int option" where
  "getFullYear env dt = (case dt of
       Fin x \<Rightarrow> Some (YearFromTime (LocalTime env \<lfloor>x\<rfloor>))
     | _ \<Rightarrow> None)"

definition getMonth :: "Env \<Rightarrow> Date \<Rightarrow> int option" where
  "getMonth env dt = (case dt of
       Fin x \<Rightarrow> Some (MonthFromTime (LocalTime env \<lfloor>x\<rfloor>))
     | _ \<Rightarrow> None)"

subsection \<open>Strings of integers\<close>

definition digit_char :: "nat \<Rightarrow> char" where
  "digit_char n = ''0123456789'' ! n"

fun digits_of :: "nat \<Rightarrow> string" where
  "digits_of n = (if n < 10 then [digit_char n]
                  else digits_of (n div 10) @ [digit_char (n mod 10)])"

declare digits_of.simps [simp del]

text \<open>\<open>String(n)\<close> and \<open>`${n}`\<close> for \<open>n\<close> an integer or \<open>NaN\<close>.\<close>

definition String_of :: "int option \<Rightarrow> string" where
  "String_of n = (case n of
       None \<Rightarrow> ''NaN''
     | Some i \<Rightarrow> if i < 0 then CHR ''-'' # digits_of (nat (- i)) else digits_of (nat i))"

text \<open>\<open>s.padStart(n, c)\<close> with a one-character filler.\<close>

definition padStart :: "string \<Rightarrow> nat \<Rightarrow> char \<Rightarrow> string" where
  "padStart s n c = replicate (n - length s) c @ s"

definition monthKey :: "Env \<Rightarrow> Date \<Rightarrow> string" where
  "monthKey env dt =
     String_of (getFullYear env dt) @ ''-'' @
     padStart (String_of (map_option (\<lambda>m. m + 1) (getMonth env dt))) 2 CHR ''0''"

section \<open>Arrays and maps\<close>

text \<open>
  \<open>Array.prototype.sort\<close> with a comparator.  The language requires the sort to be
  stable, and for a consistent comparator the result is then determined; this insertion
  sort computes it.  A comparator result that is \<open>NaN\<close> counts as zero.
\<close>

definition is_pos :: "jsnum \<Rightarrow> bool" where
  "is_pos v = num_gt v (Fin 0)"

fun insort_cmp :: "('a \<Rightarrow> 'a \<Rightarrow> jsnum) \<Rightarrow> 'a \<Rightarrow> 'a list \<Rightarrow> 'a list" where
  "insort_cmp cmp x [] = [x]"
| "insort_cmp cmp x (y # ys) =
     (if is_pos (cmp x y) then y # insort_cmp cmp x ys else x # y # ys)"

definition Array_sort :: "('a \<Rightarrow> 'a \<Rightarrow> jsnum) \<Rightarrow> 'a list \<Rightarrow> 'a list" where
  "Array_sort cmp xs = foldr (insort_cmp cmp) xs []"

text \<open>
  A \<open>Map\<close> keeps its entries in insertion order: \<open>set\<close> on a present key replaces the
  value in place, on a new key it appends an entry.
\<close>

type_synonym ('k, 'v) Map = "('k \<times> 'v) list"

definition Map_get :: "('k, 'v) Map \<Rightarrow> 'k \<Rightarrow> 'v option" where
  "Map_get m k = map_of m k"

fun Map_set :: "('k, 'v) Map \<Rightarrow> 'k \<Rightarrow> 'v \<Rightarrow> ('k, 'v) Map" where
  "Map_set [] k v = [(k, v)]"
| "Map_set ((k', v') # m) k v = (if k' = k then (k, v) # m else (k', v') # Map_set m k v)"

text \<open>\<open>a.localeCompare(b)\<close>, as the comparison of the strings by code units.\<close>

definition localeCompare :: "string \<Rightarrow> string \<Rightarrow> jsnum" where
  "localeCompare a b = (if a < b then Fin (- 1) else if a = b then Fin 0 else Fin 1)"

section \<open>The aggregation\<close>

record Row =
  date :: Date
  product :: jsval
  units :: jsnum
  unit_price :: jsnum
  sales :: jsnum

record MonthlyRow =
  key :: string
  sales :: jsnum
  transactions :: nat
  pct_change :: "jsnum option"

record ProductTotal =
  product :: jsval
  total_sales :: jsnum
  percent :: jsnum

record Aggregate =
  rows :: "Row list"
  productTotalsArr :: "ProductTotal list"
  monthly :: "MonthlyRow list"
  naive :: jsnum
  ma :: jsnum

subsection \<open>Field resolution\<close>

definition dateRaw :: "RawRecord \<Rightarrow> jsval" where
  "dateRaw r = nullish (nullish (get_prop r ''date'') (get_prop r ''order_date'')) (get_prop r ''tarih'')"

text \<open>The second alias of the product is \<open>u-umlaut r u-umlaut n\<close>, here in UTF-8.\<close>

definition urun :: string where
  "urun = [CHR 0xC3, CHR 0xBC, CHR ''r'', CHR 0xC3, CHR 0xBC, CHR ''n'']"

definition product_of :: "RawRecord \<Rightarrow> jsval" where
  "product_of r =
     nullish (nullish (nullish (get_prop r ''product'') (get_prop r urun)) (get_prop r ''Product''))
       (VStr ''Unknown'')"

definition unitsVal :: "RawRecord \<Rightarrow> jsval" where
  "unitsVal r =
     nullish (nullish (nullish (nullish (get_prop r ''units'') (get_prop r ''quantity''))
       (get_prop r ''adet'')) (get_prop r ''Units'')) (get_prop r ''Quantity'')"

definition unitPriceVal :: "RawRecord \<Rightarrow> jsval" where
  "unitPriceVal r =
     nullish (nullish (nullish (get_prop r ''unit_price'') (get_prop r ''price''))
       (get_prop r ''Unit_Price'')) (get_prop r ''Price'')"

definition rawSales :: "RawRecord \<Rightarrow> jsval" where
  "rawSales r =
     nullish (nullish (nullish (nullish (get_prop r ''sales'') (get_prop r ''revenue''))
       (get_prop r ''ciro'')) (get_prop r ''Sales'')) (get_prop r ''Revenue'')"

definition numericSales :: "RawRecord \<Rightarrow> jsnum" where
  "numericSales r =
     (if rawSales r = VUndefined \<or> rawSales r = VNull \<or> rawSales r = VStr [] \<or> isNaN (rawSales r)
      then fmul (ToNumber (unitsVal r)) (ToNumber (unitPriceVal r))
      else ToNumber (rawSales r))"

text \<open>The callback of \<open>data.map\<close>: the typed row of a record, or \<open>null\<close>.\<close>

definition to_row :: "Env \<Rightarrow> RawRecord \<Rightarrow> Row option" where
  "to_row env r =
     (let date = toDate env (dateRaw r);
          product = product_of r;
          units = ToNumber (unitsVal r);
          unit_price = ToNumber (unitPriceVal r);
          numericSales = numericSales r
      in case date of
           None \<Rightarrow> None
         | Some dt \<Rightarrow>
             if Number_isNaN units \<or> Number_isNaN unit_price \<or> Number_isNaN numericSales then None
             else Some \<lparr>date = dt, Row.product = product, units = units,
                        unit_price = unit_price, Row.sales = numericSales\<rparr>)"

definition rowsUnsorted :: "Env \<Rightarrow> RawRecord list \<Rightarrow> Row list" where
  "rowsUnsorted env data = map the (filter (\<lambda>x. x \<noteq> None) (map (to_row env) data))"

definition cmp_date :: "Row \<Rightarrow> Row \<Rightarrow> jsnum" where
  "cmp_date a b = fsub (getTime (date a)) (getTime (date b))"

subsection \<open>Product totals\<close>

definition add_product :: "(jsval, jsnum) Map \<Rightarrow> Row \<Rightarrow> (jsval, jsnum) Map" where
  "add_product m r =
     Map_set m (Row.product r)
       (fadd (case Map_get m (Row.product r) of None \<Rightarrow> Fin 0 | Some t \<Rightarrow> or_zero t) (Row.sales r))"

definition productTotals :: "Row list \<Rightarrow> (jsval, jsnum) Map" where
  "productTotals rs = foldl add_product [] rs"

definition cmp_total :: "jsval \<times> jsnum \<Rightarrow> jsval \<times> jsnum \<Rightarrow> jsnum" where
  "cmp_total a b = fsub (snd b) (snd a)"

definition totalAll :: "(jsval \<times> jsnum) list \<Rightarrow> jsnum" where
  "totalAll arr = foldl (\<lambda>s x. fadd s (snd x)) (Fin 0) arr"

definition with_percent :: "jsnum \<Rightarrow> jsval \<times> jsnum \<Rightarrow> ProductTotal" where
  "with_percent tot x =
     \<lparr>product = fst x, total_sales = snd x,
      percent = (if truthy tot then fmul (fdiv (snd x) tot) (Fin 100) else Fin 0)\<rparr>"

subsection \<open>Monthly rollup\<close>

definition add_month :: "Env \<Rightarrow> (string, MonthlyRow) Map \<Rightarrow> Row \<Rightarrow> (string, MonthlyRow) Map" where
  "add_month env m r =
     (let key = monthKey env (date r);
          cur = (case Map_get m key of
                   None \<Rightarrow> \<lparr>key = key, sales = Fin 0, transactions = 0, pct_change = None\<rparr>
                 | Some c \<Rightarrow> c)
      in Map_set m key (cur\<lparr>MonthlyRow.sales := fadd (MonthlyRow.sales cur) (Row.sales r),
                             transactions := transactions cur + 1\<rparr>))"

definition monthlyMap :: "Env \<Rightarrow> Row list \<Rightarrow> (string, MonthlyRow) Map" where
  "monthlyMap env rs = foldl (add_month env) [] rs"

definition cmp_key :: "MonthlyRow \<Rightarrow> MonthlyRow \<Rightarrow> jsnum" where
  "cmp_key a b = localeCompare (key a) (key b)"

text \<open>
  The loop over \<open>i = 1, ..., length - 1\<close>: \<open>p\<close> is the bucket before the current
  one; only \<open>pct_change\<close> is written, so the \<open>sales\<close> it reads are the original ones.
\<close>

fun pct_loop :: "MonthlyRow \<Rightarrow> MonthlyRow list \<Rightarrow> MonthlyRow list" where
  "pct_loop p [] = []"
| "pct_loop p (m # ms) =
     (let prev = or_zero (MonthlyRow.sales p)
      in m\<lparr>pct_change :=
             Some (if truthy prev
                   then fmul (fdiv (fsub (MonthlyRow.sales m) prev) prev) (Fin 100)
                   else Fin 0)\<rparr>
         # pct_loop m ms)"

definition pct_changes :: "MonthlyRow list \<Rightarrow> MonthlyRow list" where
  "pct_changes ms = (case ms of [] \<Rightarrow> [] | m # rest \<Rightarrow> m # pct_loop m rest)"

subsection \<open>The whole function\<close>

definition aggregate :: "Env \<Rightarrow> RawRecord list \<Rightarrow> Aggregate" where
  "aggregate env data =
     (let rows = Array_sort cmp_date (rowsUnsorted env data);
          arr = Array_sort cmp_total (productTotals rows);
          productTotalsArr = map (with_percent (totalAll arr)) arr;
          monthly = pct_changes (Array_sort cmp_key (map snd (monthlyMap env rows)));
          y = map MonthlyRow.sales monthly;
          naive = (if length y \<noteq> 0 then y ! (length y - 1) else Fin 0);
          k = min 3 (length y);
          ma = (if k \<noteq> 0 then fdiv (foldl fadd (Fin 0) (drop (length y - k) y)) (Fin (real k))
                else Fin 0)
      in \<lparr>rows = rows, productTotalsArr = productTotalsArr, monthly = monthly,
          naive = naive, ma = ma\<rparr>)"

section \<open>The aggregation on a store\<close>

text \<open>
  For the effects of \<open>aggregate\<close>, the arrays and the parsed records are cells of a store,
  addressed by their index; a new array or object takes the next free address.  The input
  is the address of an array of references to records.  Each step of the function is an
  allocation or a write, as the operation it models does: \<open>map\<close>, \<open>filter\<close>,
  \<open>Array.from\<close>, \<open>slice\<close> and \<open>new Map\<close> allocate; \<open>sort\<close> writes the array it is
  called on and returns the same reference; the loops over the rows write the map they
  fill; \<open>forEach\<close> and the loop of the percentage change write the objects of the array
  they run over, kept here in the cell of that array.
\<close>

datatype cell =
    Record RawRecord
  | Refs "nat list"
  | Rows "Row option list"
  | Entries "(jsval \<times> jsnum) list"
  | Totals "ProductTotal list"
  | MonthMap "(string \<times> MonthlyRow) list"
  | Months "MonthlyRow list"
  | Nums "jsnum list"

type_synonym store = "cell list"

datatype error = TypeError

definition alloc :: "cell \<Rightarrow> store \<Rightarrow> nat \<times> store" where
  "alloc c s = (length s, s @ [c])"

definition write_cell :: "nat \<Rightarrow> cell \<Rightarrow> store \<Rightarrow> store" where
  "write_cell p c s = s[p := c]"

definition cell_at :: "store \<Rightarrow> nat \<Rightarrow> cell option" where
  "cell_at s p = (if p < length s then Some (s ! p) else None)"

definition record_at :: "store \<Rightarrow> nat \<Rightarrow> RawRecord option" where
  "record_at s p = (case cell_at s p of Some (Record r) \<Rightarrow> Some r | _ \<Rightarrow> None)"

text \<open>
  Reading the input: calling \<open>map\<close> on what is not an array, or reading a property of
  what is not an object, throws.
\<close>

definition read_data :: "store \<Rightarrow> nat \<Rightarrow> error + RawRecord list" where
  "read_data s a = (case cell_at s a of
       Some (Refs ps) \<Rightarrow>
         if list_all (\<lambda>p. record_at s p \<noteq> None) ps then Inr (map (\<lambda>p. the (record_at s p)) ps)
         else Inl TypeError
     | _ \<Rightarrow> Inl TypeError)"

definition get_rows :: "store \<Rightarrow> nat \<Rightarrow> Row option list" where
  "get_rows s p = (case cell_at s p of Some (Rows xs) \<Rightarrow> xs | _ \<Rightarrow> [])"

definition get_entries :: "store \<Rightarrow> nat \<Rightarrow> (jsval \<times> jsnum) list" where
  "get_entries s p = (case cell_at s p of Some (Entries xs) \<Rightarrow> xs | _ \<Rightarrow> [])"

definition get_totals :: "store \<Rightarrow> nat \<Rightarrow> ProductTotal list" where
  "get_totals s p = (case cell_at s p of Some (Totals xs) \<Rightarrow> xs | _ \<Rightarrow> [])"

definition get_month_map :: "store \<Rightarrow> nat \<Rightarrow> (string \<times> MonthlyRow) list" where
  "get_month_map s p = (case cell_at s p of Some (MonthMap xs) \<Rightarrow> xs | _ \<Rightarrow> [])"

definition get_months :: "store \<Rightarrow> nat \<Rightarrow> MonthlyRow list" where
  "get_months s p = (case cell_at s p of Some (Months xs) \<Rightarrow> xs | _ \<Rightarrow> [])"

definition get_nums :: "store \<Rightarrow> nat \<Rightarrow> jsnum list" where
  "get_nums s p = (case cell_at s p of Some (Nums xs) \<Rightarrow> xs | _ \<Rightarrow> [])"

text \<open>The object that \<open>aggregate\<close> returns: three references and two numbers.\<close>

record Returned =
  rows_ref :: nat
  totals_ref :: nat
  monthly_ref :: nat
  naive_val :: jsnum
  ma_val :: jsnum

text \<open>The four parts of the function: the rows, the product totals, the monthly rollup, the baselines.\<close>

definition rows_st :: "Env \<Rightarrow> RawRecord list \<Rightarrow> store \<Rightarrow> nat \<times> store" where
  "rows_st env data s0 =
     (let (a1, s1) = alloc (Rows (map (to_row env) data)) s0;
          (a2, s2) = alloc (Rows (filter (\<lambda>x. x \<noteq> None) (get_rows s1 a1))) s1;
          s3 = write_cell a2 (Rows (map Some (Array_sort cmp_date (map the (get_rows s2 a2))))) s2
      in (a2, s3))"

definition totals_st :: "nat \<Rightarrow> store \<Rightarrow> nat \<times> store" where
  "totals_st rws s3 =
     (let (m1, s4) = alloc (Entries []) s3;
          s5 = write_cell m1 (Entries (foldl add_product (get_entries s4 m1) (map the (get_rows s4 rws)))) s4;
          (a3, s6) = alloc (Entries (get_entries s5 m1)) s5;
          s7 = write_cell a3 (Entries (Array_sort cmp_total (get_entries s6 a3))) s6;
          tot = totalAll (get_entries s7 a3);
          s8 = write_cell a3 (Totals (map (with_percent tot) (get_entries s7 a3))) s7
      in (a3, s8))"

definition monthly_st :: "Env \<Rightarrow> nat \<Rightarrow> store \<Rightarrow> nat \<times> store" where
  "monthly_st env rws s8 =
     (let (m2, s9) = alloc (MonthMap []) s8;
          s10 = write_cell m2 (MonthMap (foldl (add_month env) (get_month_map s9 m2)
                                           (map the (get_rows s9 rws)))) s9;
          (a4, s11) = alloc (Months (map snd (get_month_map s10 m2))) s10;
          s12 = write_cell a4 (Months (Array_sort cmp_key (get_months s11 a4))) s11;
          s13 = write_cell a4 (Months (pct_changes (get_months s12 a4))) s12
      in (a4, s13))"

definition baselines_st :: "nat \<Rightarrow> store \<Rightarrow> (jsnum \<times> jsnum) \<times> store" where
  "baselines_st mon s13 =
     (let (a5, s14) = alloc (Nums (map MonthlyRow.sales (get_months s13 mon))) s13;
          y = get_nums s14 a5;
          nv = (if length y \<noteq> 0 then y ! (length y - 1) else Fin 0);
          k = min 3 (length y)
      in if k \<noteq> 0
         then (let (a6, s15) = alloc (Nums (drop (length y - k) y)) s14
               in ((nv, fdiv (foldl fadd (Fin 0) (get_nums s15 a6)) (Fin (real k))), s15))
         else ((nv, Fin 0), s14))"

definition aggregate_st :: "Env \<Rightarrow> nat \<Rightarrow> store \<Rightarrow> (error + Returned) \<times> store" where
  "aggregate_st env a s0 =
     (case read_data s0 a of
        Inl e \<Rightarrow> (Inl e, s0)
      | Inr data \<Rightarrow>
          let (rws, s3) = rows_st env data s0;
              (arr, s8) = totals_st rws s3;
              (mon, s13) = monthly_st env rws s8;
              ((nv, mv), s15) = baselines_st mon s13
          in (Inr \<lparr>rows_ref = rws, totals_ref = arr, monthly_ref = mon,
                     naive_val = nv, ma_val = mv\<rparr>,
              s15))"

text \<open>What a caller reads through the returned references.\<close>

definition view :: "store \<Rightarrow> Returned \<Rightarrow> Aggregate" where
  "view s r =
     \<lparr>rows = map the (get_rows s (rows_ref r)),
      productTotalsArr = get_totals s (totals_ref r),
      monthly = get_months s (monthly_ref r),
      naive = naive_val r, ma = ma_val r\<rparr>"

section \<open>Notions used in the statements\<close>

text \<open>The finite doubles are multiples of \<open>2\<^sup>-\<^sup>1\<^sup>0\<^sup>7\<^sup>4\<close>.\<close>

definition on_grid :: "real \<Rightarrow> bool" where
  "on_grid r = (\<exists>m::int. r = of_int m / 2 ^ 1074)"

text \<open>A number that is not a finite value off the grid of the doubles.\<close>

definition wf_num :: "jsnum \<Rightarrow> bool" where
  "wf_num x = (case x of Fin r \<Rightarrow> on_grid r | _ \<Rightarrow> True)"

text \<open>
  The sum of a list of numbers as \<open>reduce((s, v) => s + v, 0)\<close> accumulates it, from the
  left, and their arithmetic mean.
\<close>

definition sum_num :: "jsnum list \<Rightarrow> jsnum" where
  "sum_num xs = foldl fadd (Fin 0) xs"

definition mean :: "jsnum list \<Rightarrow> jsnum" where
  "mean xs = fdiv (sum_num xs) (Fin (real (length xs)))"

section \<open>Concrete inputs\<close>

text \<open>A host in the UTC time zone whose \<open>Date.parse\<close> accepts no string.\<close>

definition env_utc :: Env where
  "env_utc = \<lparr>date_parse = (\<lambda>s. NaN), local_tza = (\<lambda>t. 0)\<rparr>"

text \<open>A record with a numeric date, a product and an explicit sales cell.\<close>

definition rec_sale :: "real \<Rightarrow> string \<Rightarrow> jsval \<Rightarrow> RawRecord" where
  "rec_sale t p s = [''date'' \<mapsto> VNum (Fin t), ''product'' \<mapsto> VStr p, ''units'' \<mapsto> VNum (Fin 1),
                     ''unit_price'' \<mapsto> VNum (Fin 1), ''sales'' \<mapsto> s]"

text \<open>
  Three months of 1970 with sales 100, 150 and 90 (the time values are the starts of
  January, February and March).
\<close>

definition three_months :: "RawRecord list" where
  "three_months = [rec_sale 0 ''A'' (VNum (Fin 100)), rec_sale 2678400000 ''A'' (VNum (Fin 150)),
                   rec_sale 5097600000 ''B'' (VNum (Fin 90))]"

text \<open>
  The percentage change of a bucket's sales over the previous bucket's, with 0 when the
  previous sales are 0 or \<open>NaN\<close>.
\<close>

definition pct_of :: "jsnum \<Rightarrow> jsnum \<Rightarrow> jsnum" where
  "pct_of prev cur =
     (if prev = Fin 0 \<or> prev = NaN then Fin 0
      else fmul (fdiv (fsub cur prev) prev) (Fin 100))"

text \<open>What holds of every entry of the monthly map built from the rows \<open>rs\<close>.\<close>

definition bucket_ok :: "Env \<Rightarrow> Row list \<Rightarrow> string \<times> MonthlyRow \<Rightarrow> bool" where
  "bucket_ok env rs e = (key (snd e) = fst e \<and> pct_change (snd e) = None \<and> 1 \<le> transactions (snd e) \<and>
     (\<exists>r\<in>set rs. fst e = monthKey env (date r)))"

text \<open>A record that gives a row: its date is valid and no number of it is \<open>NaN\<close>.\<close>

definition valid_record :: "Env \<Rightarrow> RawRecord \<Rightarrow> bool" where
  "valid_record env r =
     (toDate env (dateRaw r) \<noteq> None \<and> ToNumber (unitsVal r) \<noteq> NaN \<and>
      ToNumber (unitPriceVal r) \<noteq> NaN \<and> numericSales r \<noteq> NaN)"

text \<open>Two sales of one month that are infinite with opposite signs, and a sale of the next month.\<close>

definition nan_month :: "RawRecord list" where
  "nan_month = [rec_sale 0 ''A'' (VStr ''Infinity''), rec_sale 1 ''A'' (VStr ''-Infinity''),
                rec_sale 2678400000 ''A'' (VNum (Fin 5))]"

text \<open>A record whose units are the string \<open>Infinity\<close>, with no sales cell.\<close>

definition rec_inf_units :: RawRecord where
  "rec_inf_units = [''date'' \<mapsto> VNum (Fin 0), ''product'' \<mapsto> VStr ''A'',
                    ''units'' \<mapsto> VStr ''Infinity'', ''price'' \<mapsto> VNum (Fin 1)]"

text \<open>A record without a date cell.\<close>

definition rec_no_date :: RawRecord where
  "rec_no_date = [''units'' \<mapsto> VNum (Fin 1), ''price'' \<mapsto> VNum (Fin 1)]"

text \<open>
  Rows given out of date order, two pairs of them with equal dates, over three products.
\<close>

definition shuffled :: "RawRecord list" where
  "shuffled = [rec_sale 5 ''A'' (VNum (Fin 1)), rec_sale 0 ''B'' (VNum (Fin 7)),
               rec_sale 5 ''C'' (VNum (Fin 2)), rec_sale 0 ''A'' (VNum (Fin 3))]"

text \<open>A product whose sales are infinite with opposite signs, between two other products.\<close>

definition nan_total :: "RawRecord list" where
  "nan_total = [rec_sale 0 ''B'' (VNum (Fin 1)), rec_sale 1 ''A'' (VStr ''Infinity''),
                rec_sale 2 ''A'' (VStr ''-Infinity''), rec_sale 3 ''C'' (VNum (Fin 2))]"

text \<open>A sale dated by the time value of the first instant of the year 10000.\<close>

definition year_10000 :: "RawRecord list" where
  "year_10000 = [rec_sale 253402300800000 ''A'' (VNum (Fin 1))]"

text \<open>
  Sales that are integers whose absolute values sum to at most \<open>2\<^sup>5\<^sup>3\<close>: every sum
  of such sales is computed without rounding.
\<close>

definition is_int_num :: "jsnum \<Rightarrow> bool" where
  "is_int_num x = (case x of Fin r \<Rightarrow> r = of_int \<lfloor>r\<rfloor> | _ \<Rightarrow> False)"

definition int_val :: "jsnum \<Rightarrow> int" where
  "int_val x = (case x of Fin r \<Rightarrow> \<lfloor>r\<rfloor> | _ \<Rightarrow> 0)"

definition exact_sales :: "Row list \<Rightarrow> bool" where
  "exact_sales rs =
     ((\<forall>r\<in>set rs. is_int_num (Row.sales r)) \<and> (\<Sum>r\<leftarrow>rs. \<bar>int_val (Row.sales r)\<bar>) \<le> 2 ^ 53)"

text \<open>
  Sales of \<open>10\<^sup>1\<^sup>6\<close> and of 1: above \<open>2\<^sup>5\<^sup>3\<close> the doubles are the even integers, so
  that adding 1 to \<open>10\<^sup>1\<^sup>6\<close> is lost to rounding while adding 2 is not.  Once over two
  products, once over two months.
\<close>

definition rounding_products :: "RawRecord list" where
  "rounding_products =
     [rec_sale 0 ''B'' (VNum (Fin 1)), rec_sale 1 ''A'' (VNum (Fin 10000000000000000)),
      rec_sale 2 ''A'' (VNum (Fin 1)), rec_sale 3 ''B'' (VNum (Fin 1))]"

definition rounding_months :: "RawRecord list" where
  "rounding_months =
     [rec_sale 0 ''A'' (VNum (Fin 10000000000000000)), rec_sale 1 ''A'' (VNum (Fin 1)),
      rec_sale 2678400000 ''A'' (VNum (Fin 1)), rec_sale 2678400001 ''A'' (VNum (Fin 1))]"


text \<open>A store with an array of two records.\<close>

definition store2 :: store where
  "store2 = [Refs [1, 2], Record (rec_sale 5 ''A'' (VNum (Fin 1))), Record (rec_sale 0 ''B'' (VNum (Fin 7)))]"

text \<open>
  The cell of a record under the first of the keys \<open>ks\<close> that holds a value other than
  \<open>undefined\<close> and \<open>null\<close>, if there is such a key.
\<close>

definition first_cell :: "RawRecord \<Rightarrow> string list \<Rightarrow> jsval option" where
  "first_cell r ks =
     (case filter (\<lambda>k. r k \<noteq> None \<and> r k \<noteq> Some VUndefined \<and> r k \<noteq> Some VNull) ks of
        [] \<Rightarrow> None
      | k # _ \<Rightarrow> r k)"

text \<open>
  A record dated at the time value 0, of product \<open>A\<close>, with 3 units at the price 2, and
  with the further cells \<open>cs\<close>.
\<close>

definition rec_with :: "(string \<times> jsval) list \<Rightarrow> RawRecord" where
  "rec_with cs = map_of (cs @ [(''date'', VNum (Fin 0)), (''product'', VStr ''A''),
                               (''units'', VNum (Fin 3)), (''price'', VNum (Fin 2))])"


text \<open>
  Finite sales whose sums overflow: two sales of \<open>2\<^sup>1\<^sup>0\<^sup>2\<^sup>3\<close> of product \<open>A\<close> in January
  and two sales of \<open>-2\<^sup>1\<^sup>0\<^sup>2\<^sup>3\<close> of product \<open>B\<close> in February; and two products with one sale
  of \<open>2\<^sup>1\<^sup>0\<^sup>2\<^sup>3\<close> each.
\<close>

definition overflow_sales :: "RawRecord list" where
  "overflow_sales =
     [rec_sale 0 ''A'' (VNum (Fin (2 ^ 1023))), rec_sale 1 ''A'' (VNum (Fin (2 ^ 1023))),
      rec_sale 2678400000 ''B'' (VNum (Fin (- (2 ^ 1023)))),
      rec_sale 2678400001 ''B'' (VNum (Fin (- (2 ^ 1023))))]"



section \<open>Properties of the number model\<close>

lemma ilog2_bounds:
  "1 \<le> n \<Longrightarrow> 0 \<le> ilog2 n \<and> 2 ^ nat (ilog2 n) \<le> n \<and> n < 2 ^ nat (ilog2 n + 1)"
proof (induction n rule: ilog2.induct)
  case (1 n)
  show ?case
  proof (cases "n < 2")
    case True
    with "1.prems" have "n = 1" by simp
    then show ?thesis by (simp add: ilog2.simps)
  next
    case False
    then have h: "1 \<le> n div 2" by simp
    from "1.IH"[OF False h] have ih: "0 \<le> ilog2 (n div 2)" "2 ^ nat (ilog2 (n div 2)) \<le> n div 2"
      "n div 2 < 2 ^ nat (ilog2 (n div 2) + 1)" by simp_all
    have e: "ilog2 n = 1 + ilog2 (n div 2)" using False by (subst ilog2.simps) simp
    have p1: "nat (1 + ilog2 (n div 2)) = Suc (nat (ilog2 (n div 2)))" using ih(1) by simp
    have p2: "nat (1 + ilog2 (n div 2) + 1) = Suc (nat (ilog2 (n div 2) + 1))" using ih(1) by simp
    show ?thesis unfolding e p1 p2 using ih by simp linarith
  qed
qed

lemma round_even_of_int: "round_even (of_int k) = k"
  by (simp add: round_even_def)

lemma round_even_ge_floor: "\<lfloor>y\<rfloor> \<le> round_even y"
  by (simp add: round_even_def Let_def)

lemma round_even_le_ceiling: "round_even y \<le> \<lceil>y\<rceil>"
proof (cases "y = of_int \<lfloor>y\<rfloor>")
  case True
  then have "round_even y = \<lfloor>y\<rfloor>"
    by (metis round_even_of_int)
  then show ?thesis by simp
next
  case False
  then have "\<lceil>y\<rceil> = \<lfloor>y\<rfloor> + 1"
    by (metis ceiling_altdef)
  then show ?thesis by (simp add: round_even_def Let_def)
qed

lemma expo_lower: 
  assumes "x \<noteq> 0"
  shows "2 powi (expo x) \<le> \<bar>x\<bar>"
proof (cases "1 \<le> \<bar>x\<bar>")
  case True
  then have f1: "1 \<le> \<lfloor>\<bar>x\<bar>\<rfloor>" by simp
  from ilog2_bounds[OF f1] have e0: "0 \<le> ilog2 \<lfloor>\<bar>x\<bar>\<rfloor>" and lo: "2 ^ nat (ilog2 \<lfloor>\<bar>x\<bar>\<rfloor>) \<le> \<lfloor>\<bar>x\<bar>\<rfloor>"
    by simp_all
  have "2 powi (expo x) = (2::real) ^ nat (ilog2 \<lfloor>\<bar>x\<bar>\<rfloor>)"
    using True e0 by (simp add: expo_def power_int_nonneg_exp)
  also have "\<dots> = of_int (2 ^ nat (ilog2 \<lfloor>\<bar>x\<bar>\<rfloor>))" by simp
  also have "\<dots> \<le> of_int \<lfloor>\<bar>x\<bar>\<rfloor>" using lo by (simp only: of_int_le_iff)
  also have "\<dots> \<le> \<bar>x\<bar>" by simp
  finally show ?thesis .
next
  case False
  define n where "n = \<lceil>1 / \<bar>x\<bar>\<rceil>"
  have ax: "0 < \<bar>x\<bar>" "\<bar>x\<bar> < 1" using assms False by simp_all
  then have "1 < 1 / \<bar>x\<bar>" by simp
  then have n2: "2 \<le> n" unfolding n_def by linarith 
  then have m1: "1 \<le> n - 1" by simp
  from ilog2_bounds[OF m1] have e0: "0 \<le> ilog2 (n - 1)" and hi: "n - 1 < 2 ^ nat (ilog2 (n - 1) + 1)"
    by simp_all
  have ex: "expo x = - (1 + ilog2 (n - 1))" using False by (simp add: expo_def n_def)
  have "1 / \<bar>x\<bar> \<le> of_int n" unfolding n_def by simp
  also have "of_int n \<le> (of_int (2 ^ nat (ilog2 (n - 1) + 1)) :: real)" using hi by (simp only: of_int_le_iff)
  also have "\<dots> = 2 powi (1 + ilog2 (n - 1))" using e0 by (simp add: power_int_nonneg_exp add.commute)
  finally have "1 / \<bar>x\<bar> \<le> 2 powi (1 + ilog2 (n - 1))" .
  then have "1 / (2 powi (1 + ilog2 (n - 1))) \<le> \<bar>x\<bar>"
    using ax(1) by (simp add: field_simps)
  then show ?thesis unfolding ex power_int_minus_divide .
qed


lemma fl_unit_le:
  assumes "x \<noteq> 0" and "1 / 2 ^ 1074 \<le> \<bar>x\<bar>"
  shows "2 powi (max (expo x) (- 1022) - 52) \<le> \<bar>x\<bar>"
proof (cases "- 1022 \<le> expo x")
  case True
  then have "max (expo x) (- 1022) - 52 = expo x - 52" by simp
  moreover have "(2::real) powi (expo x - 52) \<le> 2 powi (expo x)"
    by (rule power_int_increasing) simp_all
  ultimately show ?thesis using expo_lower[OF assms(1)] by simp
next
  case False
  then have "max (expo x) (- 1022) - 52 = - 1074" by simp
  then show ?thesis using assms(2) by (simp add: power_int_minus_divide)
qed

lemma fl_pos:
  assumes "1 / 2 ^ 1074 \<le> x"
  shows "fl x = PInf \<or> (\<exists>r. fl x = Fin r \<and> 0 < r)"
proof -
  define u :: real where "u = 2 powi (max (expo x) (- 1022) - 52)"
  have "(0::real) < 1 / 2 ^ 1074" by simp
  with assms have x0: "0 < x" by linarith
  have u0: "0 < u" unfolding u_def by simp
  have "u \<le> x" using fl_unit_le[of x] assms x0 unfolding u_def by simp
  then have "1 \<le> x / u" using u0 by simp
  then have "1 \<le> round_even (x / u)"
    by (intro order_trans[OF _ round_even_ge_floor]) simp
  then have r0: "0 < of_int (round_even (x / u)) * u" using u0 by simp
  show ?thesis
    using x0 r0 unfolding fl_def Let_def u_def by auto
qed

lemma fl_neg:
  assumes "x \<le> - (1 / 2 ^ 1074)"
  shows "fl x = NInf \<or> (\<exists>r. fl x = Fin r \<and> r < 0)"
proof -
  define u :: real where "u = 2 powi (max (expo x) (- 1022) - 52)"
  have "(0::real) < 1 / 2 ^ 1074" by simp
  with assms have x0: "x < 0" by linarith
  have u0: "0 < u" unfolding u_def by simp
  have "u \<le> - x" using fl_unit_le[of x] assms x0 unfolding u_def by simp
  then have "x / u \<le> - 1" using u0 by (simp add: field_simps)
  then have "round_even (x / u) \<le> - 1"
    by (intro order_trans[OF round_even_le_ceiling]) (simp add: ceiling_le_iff)
  then have "of_int (round_even (x / u)) * u < 0" using u0 by (simp add: mult_neg_pos)
  moreover have "(0::real) < 2 ^ 1024" by simp
  ultimately have "of_int (round_even (x / u)) * u < 0"
    and "\<not> (2::real) ^ 1024 \<le> of_int (round_even (x / u)) * u" by linarith+
  then
  show ?thesis
    using x0 unfolding fl_def Let_def u_def by auto
qed

lemma fl_on_grid:
  assumes "fl x = Fin r"
  shows "on_grid r"
proof (cases "x = 0")
  case True
  with assms have "r = 0" by (simp add: fl_def)
  then show ?thesis unfolding on_grid_def by (intro exI[of _ 0]) simp
next
  case False
  define k where "k = max (expo x) (- 1022) - 52 + 1074"
  have k0: "0 \<le> k" unfolding k_def by simp
  have "(2::real) powi (max (expo x) (- 1022) - 52) = 2 powi (k - 1074)"
    unfolding k_def by simp
  also have "\<dots> = 2 powi k / 2 powi 1074"
    by (rule power_int_diff) simp
  also have "\<dots> = 2 ^ nat k / 2 ^ 1074"
    using k0 by (simp add: power_int_nonneg_exp)
  finally have u: "(2::real) powi (max (expo x) (- 1022) - 52) = 2 ^ nat k / 2 ^ 1074" .
  from assms False have "r = of_int (round_even (x / 2 powi (max (expo x) (- 1022) - 52))) *
      2 powi (max (expo x) (- 1022) - 52)"
    by (simp add: fl_def Let_def split: if_splits)
  then have "r = of_int (round_even (x / 2 powi (max (expo x) (- 1022) - 52)) * 2 ^ nat k) / 2 ^ 1074"
    unfolding u by simp
  then show ?thesis unfolding on_grid_def by blast
qed

lemma fl_of_int:
  assumes "\<bar>n\<bar> \<le> 2 ^ 53"
  shows "fl (of_int n) = Fin (of_int n)"
proof (cases "n = 0")
  case True
  then show ?thesis by (simp add: fl_def)
next
  case False
  define a where "a = \<bar>n\<bar>"
  define e where "e = ilog2 a"
  have a1: "1 \<le> a" using False unfolding a_def by simp
  from ilog2_bounds[OF a1] have e0: "0 \<le> e" and lo: "2 ^ nat e \<le> a"
    unfolding e_def by simp_all
  have ex: "expo (of_int n) = e"
  proof -
    have "\<bar>real_of_int n\<bar> = of_int a" unfolding a_def by simp
    then show ?thesis using a1 unfolding expo_def e_def by simp
  qed
  have e53: "e \<le> 53"
  proof (rule ccontr)
    assume "\<not> e \<le> 53"
    then have "54 \<le> nat e" by simp
    then have "(2::int) ^ 54 \<le> 2 ^ nat e" by (intro power_increasing) simp_all
    with lo assms show False unfolding a_def by simp
  qed
  define u :: real where "u = 2 powi (e - 52)"
  have u0: "u \<noteq> 0" unfolding u_def by simp
  have "\<exists>k::int. of_int n / u = of_int k"
  proof (cases "e \<le> 52")
    case True
    then have "u = 1 / 2 ^ nat (52 - e)"
      unfolding u_def using power_int_minus_divide[of "2::real" "52 - e"]
      by (simp add: power_int_nonneg_exp)
    then have "of_int n / u = of_int (n * 2 ^ nat (52 - e))" by simp
    then show ?thesis by blast
  next
    case False
    with e53 have e: "e = 53" by simp
    then have "2 ^ 53 \<le> a" using lo by simp
    with assms have "a = 2 ^ 53" unfolding a_def by simp
    then have "n = 2 ^ 53 \<or> n = - (2 ^ 53)" unfolding a_def by (simp add: abs_if split: if_splits)
    moreover have "u = 2" unfolding u_def e by simp
    ultimately have "of_int n / u = of_int (2 ^ 52) \<or> of_int n / u = of_int (- (2 ^ 52))" by auto
    then show ?thesis by blast
  qed
  then obtain k :: int where k: "of_int n / u = of_int k" by blast
  then have r: "of_int (round_even (of_int n / u)) * u = of_int n"
    using u0 by (simp add: round_even_of_int) (metis k nonzero_divide_eq_eq u0)
  have m: "max (expo (real_of_int n)) (- 1022) - 52 = e - 52" using ex e0 by simp
  have b: "\<bar>real_of_int n\<bar> \<le> 2 ^ 53" using assms by (metis of_int_abs of_int_le_iff of_int_numeral of_int_power)
  have "(2::real) ^ 53 < 2 ^ 1024" by simp
  with b have "\<not> 2 ^ 1024 \<le> real_of_int n" "\<not> real_of_int n \<le> - (2 ^ 1024)" by linarith+
  then show ?thesis
    using False r unfolding fl_def Let_def m u_def[symmetric] by simp
qed

subsection \<open>Comparisons\<close>

lemma num_ge_total: "x \<noteq> NaN \<Longrightarrow> y \<noteq> NaN \<Longrightarrow> num_ge x y \<or> num_ge y x"
  by (cases x; cases y) (auto simp: num_ge_def)

lemma num_ge_trans: "num_ge x y \<Longrightarrow> num_ge y z \<Longrightarrow> num_ge x z"
  by (cases x; cases y; cases z) (auto simp: num_ge_def)

lemma not_num_gt: "x \<noteq> NaN \<Longrightarrow> y \<noteq> NaN \<Longrightarrow> (\<not> num_gt x y) = num_ge y x"
  by (cases x; cases y) (auto simp: num_ge_def)

lemma is_pos_fl:
  assumes "x = 0 \<or> 1 / 2 ^ 1074 \<le> \<bar>x\<bar>"
  shows "is_pos (fl x) = (0 < x)"
proof -
  consider "x = 0" | "1 / 2 ^ 1074 \<le> x" | "x \<le> - (1 / 2 ^ 1074)"
    using assms by linarith
  then show ?thesis
  proof cases
    case 1
    then show ?thesis by (simp add: fl_def is_pos_def)
  next
    case 2
    have "(0::real) < 1 / 2 ^ 1074" by simp
    with 2 have "0 < x" by linarith
    with fl_pos[OF 2] show ?thesis by (auto simp: is_pos_def)
  next
    case 3
    have "(0::real) < 1 / 2 ^ 1074" by simp
    with 3 have "\<not> 0 < x" by linarith
    with fl_neg[OF 3] show ?thesis by (auto simp: is_pos_def)
  qed
qed

lemma grid_diff:
  assumes "on_grid a" and "on_grid b"
  shows "a - b = 0 \<or> 1 / 2 ^ 1074 \<le> \<bar>a - b\<bar>"
proof -
  from assms obtain m n :: int where a: "a = of_int m / 2 ^ 1074" and b: "b = of_int n / 2 ^ 1074"
    unfolding on_grid_def by blast
  have d: "a - b = of_int (m - n) / 2 ^ 1074" unfolding a b by (simp add: diff_divide_distrib)
  show ?thesis
  proof (cases "m = n")
    case True
    then show ?thesis using d by simp
  next
    case False
    then have "1 \<le> \<bar>m - n\<bar>" by simp
    then have "(1::real) \<le> \<bar>of_int (m - n)\<bar>" by (metis of_int_1_le_iff of_int_abs)
    then have "1 / 2 ^ 1074 \<le> \<bar>real_of_int (m - n)\<bar> / 2 ^ 1074"
      by (intro divide_right_mono) simp_all
    then show ?thesis unfolding d by simp
  qed
qed

lemma is_pos_fsub:
  assumes "wf_num x" "wf_num y" "x \<noteq> NaN" "y \<noteq> NaN"
  shows "is_pos (fsub x y) = num_gt x y"
proof (cases x)
  case (Fin a)
  show ?thesis
  proof (cases y)
    case (Fin b)
    from assms \<open>x = Fin a\<close> Fin have "on_grid a" "on_grid b" by (simp_all add: wf_num_def)
    from is_pos_fl[OF grid_diff[OF this]] show ?thesis
      using \<open>x = Fin a\<close> Fin by (simp add: fsub_def)
  qed (use assms Fin in \<open>simp_all add: fsub_def is_pos_def\<close>)
qed (use assms in \<open>cases y; simp add: fsub_def is_pos_def\<close>)+

lemma on_grid_of_int: "on_grid (of_int t)"
proof -
  have "real_of_int t = of_int (t * 2 ^ 1074) / 2 ^ 1074" by simp
  then show ?thesis unfolding on_grid_def by blast
qed

lemma wf_num_fadd: "wf_num (fadd x y)"
  by (cases x; cases y) (auto simp: wf_num_def dest: fl_on_grid split: jsnum.splits)

subsection \<open>Sorting\<close>

lemma mset_insort_cmp: "mset (insort_cmp cmp x ys) = add_mset x (mset ys)"
  by (induction ys) simp_all

lemma mset_Array_sort: "mset (Array_sort cmp xs) = mset xs"
  by (induction xs) (simp_all add: Array_sort_def mset_insort_cmp)

lemma set_Array_sort: "set (Array_sort cmp xs) = set xs"
  by (metis mset_Array_sort set_mset_mset)

lemma length_Array_sort: "length (Array_sort cmp xs) = length xs"
  by (metis mset_Array_sort size_mset)

lemma sorted_insort_cmp:
  assumes rel: "\<And>a b. a \<in> S \<Longrightarrow> b \<in> S \<Longrightarrow> (\<not> is_pos (cmp a b)) = R a b"
    and total: "\<And>a b. a \<in> S \<Longrightarrow> b \<in> S \<Longrightarrow> R a b \<or> R b a"
    and trans: "\<And>a b c. a \<in> S \<Longrightarrow> b \<in> S \<Longrightarrow> c \<in> S \<Longrightarrow> R a b \<Longrightarrow> R b c \<Longrightarrow> R a c"
    and "x \<in> S" "set ys \<subseteq> S" "sorted_wrt R ys"
  shows "sorted_wrt R (insort_cmp cmp x ys)"
  using assms(4-)
proof (induction ys)
  case Nil
  then show ?case by simp
next
  case (Cons y ys)
  then have y: "y \<in> S" and ys: "set ys \<subseteq> S" by simp_all
  show ?case
  proof (cases "is_pos (cmp x y)")
    case True
    with rel[OF \<open>x \<in> S\<close> y] total[OF \<open>x \<in> S\<close> y] have "R y x" by blast
    moreover have "sorted_wrt R (insort_cmp cmp x ys)" using Cons by simp
    moreover have "set (insort_cmp cmp x ys) = insert x (set ys)"
      by (metis mset_insort_cmp set_mset_add_mset_insert set_mset_mset)
    ultimately show ?thesis using True Cons.prems by auto
  next
    case False
    with rel[OF \<open>x \<in> S\<close> y] have xy: "R x y" by blast
    have "R x z" if "z \<in> set ys" for z
    proof -
      from that Cons.prems have "R y z" by simp
      with xy show ?thesis using trans[OF \<open>x \<in> S\<close> y _ xy] that ys by blast
    qed
    then show ?thesis using False xy Cons.prems by simp
  qed
qed

lemma sorted_Array_sort:
  assumes rel: "\<And>a b. a \<in> S \<Longrightarrow> b \<in> S \<Longrightarrow> (\<not> is_pos (cmp a b)) = R a b"
    and total: "\<And>a b. a \<in> S \<Longrightarrow> b \<in> S \<Longrightarrow> R a b \<or> R b a"
    and trans: "\<And>a b c. a \<in> S \<Longrightarrow> b \<in> S \<Longrightarrow> c \<in> S \<Longrightarrow> R a b \<Longrightarrow> R b c \<Longrightarrow> R a c"
    and "set xs \<subseteq> S"
  shows "sorted_wrt R (Array_sort cmp xs)"
  using assms(4)
proof (induction xs)
  case Nil
  then show ?case by (simp add: Array_sort_def)
next
  case (Cons x xs)
  have "sorted_wrt R (insort_cmp cmp x (Array_sort cmp xs))"
  proof (rule sorted_insort_cmp[where S = S and R = R])
    show "x \<in> S" using Cons.prems by simp
    show "set (Array_sort cmp xs) \<subseteq> S" using Cons.prems by (simp add: set_Array_sort)
    show "sorted_wrt R (Array_sort cmp xs)" using Cons by simp
  qed (fact rel total trans)+
  then show ?case by (simp add: Array_sort_def)
qed

lemma filter_insort_cmp:
  assumes "\<And>a b. P a \<Longrightarrow> P b \<Longrightarrow> \<not> is_pos (cmp a b)"
  shows "filter P (insort_cmp cmp x ys) = filter P (x # ys)"
  using assms by (induction ys) auto

lemma filter_Array_sort:
  assumes "\<And>a b. P a \<Longrightarrow> P b \<Longrightarrow> \<not> is_pos (cmp a b)"
  shows "filter P (Array_sort cmp xs) = filter P xs"
proof (induction xs)
  case Nil
  then show ?case by (simp add: Array_sort_def)
next
  case (Cons x xs)
  have "filter P (Array_sort cmp (x # xs)) = filter P (x # Array_sort cmp xs)"
    unfolding Array_sort_def foldr.simps comp_def
    by (rule filter_insort_cmp[OF assms])
  then show ?case using Cons by simp
qed

section \<open>Evaluation on concrete inputs\<close>

lemma fl_numeral: "(numeral k :: int) \<le> 2 ^ 53 \<Longrightarrow> fl (numeral k) = Fin (numeral k)"
  using fl_of_int[of "numeral k"] by simp

lemma fl_neg_numeral: "(numeral k :: int) \<le> 2 ^ 53 \<Longrightarrow> fl (- numeral k) = Fin (- numeral k)"
  using fl_of_int[of "- numeral k"] by simp

lemma fl_0: "fl 0 = Fin 0" by (simp add: fl_def)
lemma fl_1: "fl 1 = Fin 1" using fl_of_int[of 1] by simp

lemma fl_neg_1: "fl (- 1) = Fin (- 1)" using fl_of_int[of "- 1"] by simp

lemmas fl_int_simps = fl_numeral fl_neg_numeral fl_0 fl_1 fl_neg_1

lemmas row_simps = to_row_def dateRaw_def product_of_def unitsVal_def unitPriceVal_def rawSales_def
  numericSales_def get_prop_def nullish_def toDate_def new_Date_def TimeClip_def getTime_def isNaN_def
  Number_isNaN_def

lemma to_row_sale: "\<bar>t\<bar> \<le> 8640000000000000 \<Longrightarrow> t = of_int \<lfloor>t\<rfloor> \<Longrightarrow> to_row env_utc (rec_sale t p (VNum (Fin s))) =
   Some \<lparr>date = Fin t, Row.product = VStr p, units = Fin 1, unit_price = Fin 1, Row.sales = Fin s\<rparr>"
  apply (simp add: row_simps rec_sale_def env_utc_def Let_def)
  by (metis ceiling_of_int)

lemma rowsU: "rowsUnsorted env_utc three_months = [
   \<lparr>date = Fin 0, Row.product = VStr ''A'', units = Fin 1, unit_price = Fin 1, Row.sales = Fin 100\<rparr>,
   \<lparr>date = Fin 2678400000, Row.product = VStr ''A'', units = Fin 1, unit_price = Fin 1, Row.sales = Fin 150\<rparr>,
   \<lparr>date = Fin 5097600000, Row.product = VStr ''B'', units = Fin 1, unit_price = Fin 1, Row.sales = Fin 90\<rparr>]"
  by (simp add: rowsUnsorted_def three_months_def to_row_sale)

lemmas sort_simps = Array_sort_def cmp_date_def getTime_def fsub_def is_pos_def fl_int_simps

lemmas key_simps = monthKey_def getFullYear_def getMonth_def LocalTime_def YearFromTime_def MonthFromTime_def
  DayWithinYear_def InLeapYear_def DaysInYear_def Day_def msPerDay_def DayFromYear_def year_search.simps
  String_of_def digits_of.simps digit_char_def padStart_def

lemma k1: "monthKey env_utc (Fin 0) = ''1970-01''"
  by (simp add: key_simps env_utc_def Let_def)
lemma k2: "monthKey env_utc (Fin 2678400000) = ''1970-02''"
  by (simp add: key_simps env_utc_def Let_def)
lemma k3: "monthKey env_utc (Fin 5097600000) = ''1970-03''"
  by (simp add: key_simps env_utc_def Let_def)



section \<open>The fields of the result\<close>

lemma rows_aggregate: "rows (aggregate env data) = Array_sort cmp_date (rowsUnsorted env data)"
  by (simp add: aggregate_def Let_def)

lemma monthly_aggregate:
  "monthly (aggregate env data) =
     pct_changes (Array_sort cmp_key (map snd (monthlyMap env (rows (aggregate env data)))))"
  by (simp add: aggregate_def Let_def)

lemma productTotalsArr_aggregate:
  "productTotalsArr (aggregate env data) =
     map (with_percent (totalAll (Array_sort cmp_total (productTotals (rows (aggregate env data))))))
       (Array_sort cmp_total (productTotals (rows (aggregate env data))))"
  by (simp add: aggregate_def Let_def)

lemma naive_aggregate:
  "naive (aggregate env data) =
     (let y = map MonthlyRow.sales (monthly (aggregate env data))
      in if length y \<noteq> 0 then y ! (length y - 1) else Fin 0)"
  by (simp add: aggregate_def Let_def)

lemma ma_aggregate:
  "ma (aggregate env data) =
     (let y = map MonthlyRow.sales (monthly (aggregate env data)); k = min 3 (length y)
      in if k \<noteq> 0 then fdiv (foldl fadd (Fin 0) (drop (length y - k) y)) (Fin (real k)) else Fin 0)"
  by (simp add: aggregate_def Let_def)

section \<open>Three months of sales\<close>

lemmas month_simps = monthlyMap_def add_month_def Map_get_def cmp_key_def localeCompare_def pct_changes_def or_zero_def truthy_def

lemma rows3: "rows (aggregate env_utc three_months) = [
   \<lparr>date = Fin 0, Row.product = VStr ''A'', units = Fin 1, unit_price = Fin 1, Row.sales = Fin 100\<rparr>,
   \<lparr>date = Fin 2678400000, Row.product = VStr ''A'', units = Fin 1, unit_price = Fin 1, Row.sales = Fin 150\<rparr>,
   \<lparr>date = Fin 5097600000, Row.product = VStr ''B'', units = Fin 1, unit_price = Fin 1, Row.sales = Fin 90\<rparr>]"
  by (simp add: rows_aggregate rowsU sort_simps)

lemma mm3: "map snd (monthlyMap env_utc (rows (aggregate env_utc three_months))) =
  [\<lparr>key = ''1970-01'', sales = Fin 100, transactions = 1, pct_change = None\<rparr>,
   \<lparr>key = ''1970-02'', sales = Fin 150, transactions = 1, pct_change = None\<rparr>,
   \<lparr>key = ''1970-03'', sales = Fin 90, transactions = 1, pct_change = None\<rparr>]"
  by (simp add: rows3 month_simps k1 k2 k3 Let_def fl_int_simps)

lemma p1: "fmul (fdiv (fsub (Fin 150) (Fin 100)) (Fin 100)) (Fin 100) = Fin 50"
  apply (simp add: fsub_def fl_int_simps)
  apply (simp add: fl_def expo_def ilog2.simps round_even_def Let_def)
  done

lemma p2: "fmul (fdiv (fsub (Fin 90) (Fin 150)) (Fin 150)) (Fin 100) = Fin (- 40)"
  apply (simp add: fsub_def fl_int_simps)
  apply (simp add: fl_def expo_def ilog2.simps round_even_def Let_def)
  done

lemma monthly3: "monthly (aggregate env_utc three_months) =
  [\<lparr>key = ''1970-01'', sales = Fin 100, transactions = 1, pct_change = None\<rparr>,
   \<lparr>key = ''1970-02'', sales = Fin 150, transactions = 1, pct_change = Some (Fin 50)\<rparr>,
   \<lparr>key = ''1970-03'', sales = Fin 90, transactions = 1, pct_change = Some (Fin (- 40))\<rparr>]"
  apply (simp only: monthly_aggregate mm3)
  apply (simp add: Array_sort_def cmp_key_def localeCompare_def is_pos_def pct_changes_def or_zero_def truthy_def p1 p2)
  done


section \<open>Maps\<close>

lemma map_fst_Map_set:
  "map fst (Map_set m k v) = (if k \<in> set (map fst m) then map fst m else map fst m @ [k])"
  by (induction m) fastforce+

lemma distinct_Map_set: "distinct (map fst m) \<Longrightarrow> distinct (map fst (Map_set m k v))"
  by (simp add: map_fst_Map_set)

lemma set_Map_set: "set (Map_set m k v) \<subseteq> insert (k, v) (set m)"
  by (induction m) (auto split: if_splits)

lemma sum_Map_set:
  fixes f :: "'v \<Rightarrow> 'a::comm_monoid_add"
  shows "sum_list (map (\<lambda>e. f (snd e)) (Map_set m k v)) + (case map_of m k of None \<Rightarrow> 0 | Some w \<Rightarrow> f w) =
         sum_list (map (\<lambda>e. f (snd e)) m) + f v"
  by (induction m) (auto simp: ac_simps)

lemma foldl_invariant:
  assumes "P init" and "\<And>m r. P m \<Longrightarrow> r \<in> set rs \<Longrightarrow> P (step m r)"
  shows "P (foldl step init rs)"
  using assms
proof (induction rs arbitrary: init)
  case Nil
  then show ?case by simp
next
  case (Cons r rs)
  have "P (step init r)" using Cons.prems by simp
  then show ?case using Cons.IH[of "step init r"] Cons.prems(2) by simp
qed

section \<open>The monthly rollup\<close>

lemma add_month_eq:
  "add_month env m r =
     Map_set m (monthKey env (date r))
       ((case map_of m (monthKey env (date r)) of
           None \<Rightarrow> \<lparr>key = monthKey env (date r), sales = Fin 0, transactions = 0, pct_change = None\<rparr>
         | Some c \<Rightarrow> c)
        \<lparr>MonthlyRow.sales :=
           fadd (case map_of m (monthKey env (date r)) of None \<Rightarrow> Fin 0 | Some c \<Rightarrow> MonthlyRow.sales c)
             (Row.sales r),
         transactions := Suc (case map_of m (monthKey env (date r)) of None \<Rightarrow> 0 | Some c \<Rightarrow> transactions c)\<rparr>)"
  by (simp add: add_month_def Map_get_def Let_def split: option.splits)

lemma monthlyMap_ok:
  "distinct (map fst (monthlyMap env rs)) \<and> (\<forall>e\<in>set (monthlyMap env rs). bucket_ok env rs e)"
  unfolding monthlyMap_def
proof (rule foldl_invariant)
  show "distinct (map fst []) \<and> (\<forall>e\<in>set ([] :: (string \<times> MonthlyRow) list). bucket_ok env rs e)"
    by simp
next
  fix m r
  assume inv: "distinct (map fst m) \<and> (\<forall>e\<in>set m. bucket_ok env rs e)" and r: "r \<in> set rs"
  define k where "k = monthKey env (date r)"
  define c where "c = (case map_of m k of
           None \<Rightarrow> \<lparr>key = k, sales = Fin 0, transactions = 0, pct_change = None\<rparr>
         | Some c \<Rightarrow> c)
        \<lparr>MonthlyRow.sales := fadd (case map_of m k of None \<Rightarrow> Fin 0 | Some c \<Rightarrow> MonthlyRow.sales c) (Row.sales r),
         transactions := Suc (case map_of m k of None \<Rightarrow> 0 | Some c \<Rightarrow> transactions c)\<rparr>"
  have am: "add_month env m r = Map_set m k c"
    unfolding add_month_eq k_def c_def ..
  have "bucket_ok env rs (k, c)"
  proof (cases "map_of m k")
    case None
    then show ?thesis using r by (auto simp: bucket_ok_def c_def k_def)
  next
    case (Some c0)
    then have "(k, c0) \<in> set m" by (rule map_of_SomeD)
    with inv have "bucket_ok env rs (k, c0)" by blast
    then show ?thesis using Some by (auto simp: bucket_ok_def c_def)
  qed
  then have "\<forall>e\<in>set (Map_set m k c). bucket_ok env rs e"
    using inv set_Map_set[of m k c] by blast
  then show "distinct (map fst (add_month env m r)) \<and> (\<forall>e\<in>set (add_month env m r). bucket_ok env rs e)"
    unfolding am using inv by (simp add: distinct_Map_set)
qed

lemma monthlyMap_transactions:
  "sum_list (map (\<lambda>e. transactions (snd e)) (foldl (add_month env) m rs)) =
     sum_list (map (\<lambda>e. transactions (snd e)) m) + length rs"
proof (induction rs arbitrary: m)
  case Nil
  then show ?case by simp
next
  case (Cons r rs)
  define k where "k = monthKey env (date r)"
  define c where "c = (case map_of m k of
           None \<Rightarrow> \<lparr>key = k, sales = Fin 0, transactions = 0, pct_change = None\<rparr>
         | Some c \<Rightarrow> c)
        \<lparr>MonthlyRow.sales := fadd (case map_of m k of None \<Rightarrow> Fin 0 | Some c \<Rightarrow> MonthlyRow.sales c) (Row.sales r),
         transactions := Suc (case map_of m k of None \<Rightarrow> 0 | Some c \<Rightarrow> transactions c)\<rparr>"
  have am: "add_month env m r = Map_set m k c"
    unfolding add_month_eq k_def c_def ..
  have tc: "transactions c = Suc (case map_of m k of None \<Rightarrow> 0 | Some c \<Rightarrow> transactions c)"
    by (simp add: c_def)
  have "sum_list (map (\<lambda>e. transactions (snd e)) (add_month env m r)) =
        sum_list (map (\<lambda>e. transactions (snd e)) m) + 1"
    unfolding am using sum_Map_set[of transactions m k c] unfolding tc by simp
  then show ?case using Cons.IH[of "add_month env m r"] by simp
qed

section \<open>Percentage change\<close>

lemma pct_step: "(let prev = or_zero p in if truthy prev then fmul (fdiv (fsub c prev) prev) (Fin 100) else Fin 0)
     = pct_of p c"
  by (auto simp: or_zero_def truthy_def pct_of_def Let_def)

lemma pct_loop_Cons:
  "pct_loop p (m # ms) = m\<lparr>pct_change := Some (pct_of (MonthlyRow.sales p) (MonthlyRow.sales m))\<rparr> # pct_loop m ms"
  using pct_step[of "MonthlyRow.sales p" "MonthlyRow.sales m"] by (simp add: Let_def)

lemma length_pct_loop: "length (pct_loop p ms) = length ms"
  by (induction ms arbitrary: p) (simp_all add: pct_loop_Cons del: pct_loop.simps(2))

lemma nth_pct_loop:
  "i < length ms \<Longrightarrow>
     pct_loop p ms ! i =
       (ms ! i)\<lparr>pct_change := Some (pct_of (MonthlyRow.sales ((p # ms) ! i)) (MonthlyRow.sales (ms ! i)))\<rparr>"
proof (induction ms arbitrary: p i)
  case Nil
  then show ?case by simp
next
  case (Cons m ms)
  show ?case
  proof (cases i)
    case 0
    then show ?thesis by (simp add: pct_loop_Cons del: pct_loop.simps(2))
  next
    case (Suc j)
    then have "j < length ms" using Cons.prems by simp
    from Cons.IH[OF this, of m] show ?thesis using Suc by (simp add: pct_loop_Cons del: pct_loop.simps(2))
  qed
qed

lemma length_pct_changes: "length (pct_changes ms) = length ms"
  by (simp add: pct_changes_def length_pct_loop split: list.splits)

lemma nth_pct_changes:
  assumes "i < length ms"
  shows "pct_changes ms ! i =
     (if i = 0 then ms ! 0
      else (ms ! i)\<lparr>pct_change := Some (pct_of (MonthlyRow.sales (ms ! (i - 1))) (MonthlyRow.sales (ms ! i)))\<rparr>)"
proof (cases ms)
  case Nil
  with assms show ?thesis by simp
next
  case (Cons m rest)
  show ?thesis
  proof (cases i)
    case 0
    then show ?thesis using Cons by (simp add: pct_changes_def)
  next
    case (Suc j)
    then have j: "j < length rest" using assms Cons by simp
    show ?thesis using nth_pct_loop[OF j, of m] Suc Cons by (simp add: pct_changes_def)
  qed
qed

lemma map_pct_changes:
  assumes "\<And>m v. f (m\<lparr>pct_change := v\<rparr>) = f m"
  shows "map f (pct_changes ms) = map f ms"
  by (rule nth_equalityI) (simp_all add: length_pct_changes nth_pct_changes assms)

lemmas s2n_simps = StringToNumber_def StrUnsignedDecimalLiteral_def NonDecimalIntegerLiteral_def
  parse_exp_def all_digits_def digits_val_def is_digit_def radix_val_def trim_def is_ws_def
  is_ws2_def is_ws3_def Let_def

lemma s2n_Infinity: "StringToNumber ''Infinity'' = PInf"
  by (simp add: s2n_simps)

lemma s2n_neg_Infinity: "StringToNumber ''-Infinity'' = NInf"
  by (simp add: s2n_simps)

lemma s2n_zero: "StringToNumber ''0'' = Fin 0"
  by (simp add: s2n_simps fl_0)

lemma to_row_sale_any:
  assumes "\<bar>t\<bar> \<le> 8640000000000000" "t = of_int \<lfloor>t\<rfloor>"
    and "s \<noteq> VUndefined" "s \<noteq> VNull" "s \<noteq> VStr []" "ToNumber s \<noteq> NaN"
  shows "to_row env_utc (rec_sale t p s) =
   Some \<lparr>date = Fin t, Row.product = VStr p, units = Fin 1, unit_price = Fin 1, Row.sales = ToNumber s\<rparr>"
  using assms
  apply (simp add: row_simps rec_sale_def env_utc_def Let_def)
  by (metis ceiling_of_int)

lemma rowsU_nan: "rowsUnsorted env_utc nan_month = [
   \<lparr>date = Fin 0, Row.product = VStr ''A'', units = Fin 1, unit_price = Fin 1, Row.sales = PInf\<rparr>,
   \<lparr>date = Fin 1, Row.product = VStr ''A'', units = Fin 1, unit_price = Fin 1, Row.sales = NInf\<rparr>,
   \<lparr>date = Fin 2678400000, Row.product = VStr ''A'', units = Fin 1, unit_price = Fin 1, Row.sales = Fin 5\<rparr>]"
  by (simp add: rowsUnsorted_def nan_month_def to_row_sale_any s2n_Infinity s2n_neg_Infinity)

lemma rows_nan: "rows (aggregate env_utc nan_month) = rowsUnsorted env_utc nan_month"
  by (simp add: rows_aggregate rowsU_nan sort_simps)

lemma k1': "monthKey env_utc (Fin 1) = ''1970-01''"
  by (simp add: key_simps env_utc_def Let_def)

lemma monthly_nan: "monthly (aggregate env_utc nan_month) =
  [\<lparr>key = ''1970-01'', sales = NaN, transactions = 2, pct_change = None\<rparr>,
   \<lparr>key = ''1970-02'', sales = Fin 5, transactions = 1, pct_change = Some (Fin 0)\<rparr>]"
  apply (simp only: monthly_aggregate rows_nan rowsU_nan)
  apply (simp add: month_simps k1 k1' k2 Let_def fl_int_simps)
  apply (simp add: Array_sort_def cmp_key_def localeCompare_def is_pos_def or_zero_def truthy_def Let_def)
  done

lemma to_row_inf_units:
  "to_row env_utc rec_inf_units =
     Some \<lparr>date = Fin 0, Row.product = VStr ''A'', units = PInf, unit_price = Fin 1, Row.sales = PInf\<rparr>"
  by (simp add: row_simps rec_inf_units_def env_utc_def s2n_Infinity Let_def)

lemma to_row_no_date: "to_row env_utc rec_no_date = None"
  by (simp add: row_simps rec_no_date_def env_utc_def Let_def)

section \<open>The order of the rows and of the product totals\<close>

lemma TimeClip_cases: "TimeClip v = NaN \<or> (\<exists>t::int. TimeClip v = Fin (of_int t))"
  by (auto simp: TimeClip_def split: jsnum.splits)

lemma to_row_date:
  assumes "to_row env r = Some row"
  shows "\<exists>t::int. date row = Fin (of_int t)"
proof -
  from assms obtain dt where dt: "toDate env (dateRaw r) = Some dt" and d: "date row = dt"
    by (auto simp: to_row_def Let_def split: option.splits if_splits)
  from dt have "dt = new_Date env (dateRaw r)" and "dt \<noteq> NaN"
    by (auto simp: toDate_def Let_def isNaN_def getTime_def split: if_splits)
  then show ?thesis
    using TimeClip_cases d unfolding new_Date_def by metis
qed

lemma rowsUnsorted_date:
  assumes "row \<in> set (rowsUnsorted env data)"
  shows "\<exists>t::int. date row = Fin (of_int t)"
proof -
  from assms obtain r where "to_row env r = Some row"
    unfolding rowsUnsorted_def by auto
  then show ?thesis by (rule to_row_date)
qed

lemma fsub_self: "\<not> is_pos (fsub x x)"
  by (cases x) (simp_all add: fsub_def is_pos_def fl_0)

lemma cmp_date_rel:
  assumes "date a = Fin (of_int s)" "date b = Fin (of_int t)"
  shows "(\<not> is_pos (cmp_date a b)) = num_ge (getTime (date b)) (getTime (date a))"
proof -
  have "is_pos (fsub (date a) (date b)) = num_gt (date a) (date b)"
    using assms by (intro is_pos_fsub) (simp_all add: wf_num_def on_grid_of_int)
  then show ?thesis
    using assms by (auto simp: cmp_date_def getTime_def num_ge_def)
qed

lemma rows_sorted:
  "sorted_wrt (\<lambda>a b. num_ge (getTime (date b)) (getTime (date a))) (rows (aggregate env data))"
  unfolding rows_aggregate
proof (rule sorted_Array_sort[where S = "{r::Row. \<exists>t::int. date r = Fin (of_int t)}"])
  show "set (rowsUnsorted env data) \<subseteq> {r::Row. \<exists>t::int. date r = Fin (of_int t)}"
    using rowsUnsorted_date by blast
next
  fix a b :: Row
  assume "a \<in> {r::Row. \<exists>t::int. date r = Fin (of_int t)}" "b \<in> {r::Row. \<exists>t::int. date r = Fin (of_int t)}"
  then obtain s t :: int where "date a = Fin (of_int s)" "date b = Fin (of_int t)"
    by blast
  then show "(\<not> is_pos (cmp_date a b)) = num_ge (getTime (date b)) (getTime (date a))"
    by (rule cmp_date_rel)
next
  fix a b :: Row
  assume "a \<in> {r::Row. \<exists>t::int. date r = Fin (of_int t)}" "b \<in> {r::Row. \<exists>t::int. date r = Fin (of_int t)}"
  then have "date a \<noteq> NaN" "date b \<noteq> NaN"
    by auto
  then show "num_ge (getTime (date b)) (getTime (date a)) \<or> num_ge (getTime (date a)) (getTime (date b))"
    unfolding getTime_def by (intro num_ge_total)
next
  fix a b c :: Row
  assume "num_ge (getTime (date b)) (getTime (date a))" "num_ge (getTime (date c)) (getTime (date b))"
  then show "num_ge (getTime (date c)) (getTime (date a))"
    using num_ge_trans by blast
qed

lemma rows_stable:
  "filter (\<lambda>r. date r = t) (rows (aggregate env data)) = filter (\<lambda>r. date r = t) (rowsUnsorted env data)"
  unfolding rows_aggregate
  by (rule filter_Array_sort) (simp add: cmp_date_def getTime_def fsub_self)

lemma productTotals_wf: "\<forall>e\<in>set (productTotals rs). wf_num (snd e)"
  unfolding productTotals_def
proof (rule foldl_invariant)
  show "\<forall>e\<in>set ([] :: (jsval \<times> jsnum) list). wf_num (snd e)"
    by simp
next
  fix m :: "(jsval \<times> jsnum) list" and r :: Row
  assume "\<forall>e\<in>set m. wf_num (snd e)"
  then show "\<forall>e\<in>set (add_product m r). wf_num (snd e)"
    unfolding add_product_def using set_Map_set[of m] wf_num_fadd by fastforce
qed

lemma cmp_total_rel:
  assumes "wf_num (snd a)" "snd a \<noteq> NaN" "wf_num (snd b)" "snd b \<noteq> NaN"
  shows "(\<not> is_pos (cmp_total a b)) = num_ge (snd a) (snd b)"
  using assms by (simp add: cmp_total_def is_pos_fsub not_num_gt)

lemma totals_sorted:
  assumes "\<forall>e\<in>set m. wf_num (snd e) \<and> snd e \<noteq> NaN"
  shows "sorted_wrt (\<lambda>a b. num_ge (snd a) (snd b)) (Array_sort cmp_total m)"
proof (rule sorted_Array_sort[where S = "{e. wf_num (snd e) \<and> snd e \<noteq> NaN}"])
  show "set m \<subseteq> {e. wf_num (snd e) \<and> snd e \<noteq> NaN}"
    using assms by blast
next
  fix a b :: "jsval \<times> jsnum"
  assume "a \<in> {e. wf_num (snd e) \<and> snd e \<noteq> NaN}" "b \<in> {e. wf_num (snd e) \<and> snd e \<noteq> NaN}"
  then show "(\<not> is_pos (cmp_total a b)) = num_ge (snd a) (snd b)"
    using cmp_total_rel by simp
next
  fix a b :: "jsval \<times> jsnum"
  assume "a \<in> {e. wf_num (snd e) \<and> snd e \<noteq> NaN}" "b \<in> {e. wf_num (snd e) \<and> snd e \<noteq> NaN}"
  then show "num_ge (snd a) (snd b) \<or> num_ge (snd b) (snd a)"
    by (simp add: num_ge_total)
next
  fix a b c :: "jsval \<times> jsnum"
  assume "num_ge (snd a) (snd b)" "num_ge (snd b) (snd c)"
  then show "num_ge (snd a) (snd c)"
    by (rule num_ge_trans)
qed

lemma total_sales_arr:
  "map total_sales (productTotalsArr (aggregate env data)) =
     map snd (Array_sort cmp_total (productTotals (rows (aggregate env data))))"
  by (simp add: productTotalsArr_aggregate with_percent_def comp_def)

lemma productTotalsArr_sorted:
  assumes "\<forall>x\<in>set (productTotalsArr (aggregate env data)). total_sales x \<noteq> NaN"
  shows "sorted_wrt (\<lambda>a b. num_ge (total_sales a) (total_sales b)) (productTotalsArr (aggregate env data))"
proof -
  define m where "m = productTotals (rows (aggregate env data))"
  have "snd ` set m = set (map snd (Array_sort cmp_total m))"
    by (simp add: set_Array_sort)
  also have "\<dots> = total_sales ` set (productTotalsArr (aggregate env data))"
    unfolding m_def total_sales_arr[symmetric] by simp
  finally have "\<forall>e\<in>set m. snd e \<noteq> NaN"
    using assms by (metis imageE imageI)
  then have "\<forall>e\<in>set m. wf_num (snd e) \<and> snd e \<noteq> NaN"
    using productTotals_wf[of "rows (aggregate env data)"] unfolding m_def by blast
  then have "sorted_wrt (\<lambda>a b. num_ge (snd a) (snd b)) (Array_sort cmp_total m)"
    by (rule totals_sorted)
  then have "sorted_wrt num_ge (map snd (Array_sort cmp_total m))"
    by (simp add: sorted_wrt_map)
  then have "sorted_wrt num_ge (map total_sales (productTotalsArr (aggregate env data)))"
    unfolding m_def total_sales_arr .
  then show ?thesis
    by (simp add: sorted_wrt_map)
qed

lemma rows_shuffled: "rows (aggregate env_utc shuffled) = [
   \<lparr>date = Fin 0, Row.product = VStr ''B'', units = Fin 1, unit_price = Fin 1, Row.sales = Fin 7\<rparr>,
   \<lparr>date = Fin 0, Row.product = VStr ''A'', units = Fin 1, unit_price = Fin 1, Row.sales = Fin 3\<rparr>,
   \<lparr>date = Fin 5, Row.product = VStr ''A'', units = Fin 1, unit_price = Fin 1, Row.sales = Fin 1\<rparr>,
   \<lparr>date = Fin 5, Row.product = VStr ''C'', units = Fin 1, unit_price = Fin 1, Row.sales = Fin 2\<rparr>]"
  by (simp add: rows_aggregate rowsUnsorted_def shuffled_def to_row_sale_any sort_simps)

lemmas total_simps = productTotals_def add_product_def Map_get_def or_zero_def truthy_def
  cmp_total_def totalAll_def

lemma totals_shuffled:
  "map total_sales (productTotalsArr (aggregate env_utc shuffled)) = [Fin 7, Fin 4, Fin 2]"
  unfolding total_sales_arr rows_shuffled
  by (simp add: total_simps fl_int_simps Array_sort_def fsub_def is_pos_def)

lemma rows_nan_total: "rows (aggregate env_utc nan_total) = [
   \<lparr>date = Fin 0, Row.product = VStr ''B'', units = Fin 1, unit_price = Fin 1, Row.sales = Fin 1\<rparr>,
   \<lparr>date = Fin 1, Row.product = VStr ''A'', units = Fin 1, unit_price = Fin 1, Row.sales = PInf\<rparr>,
   \<lparr>date = Fin 2, Row.product = VStr ''A'', units = Fin 1, unit_price = Fin 1, Row.sales = NInf\<rparr>,
   \<lparr>date = Fin 3, Row.product = VStr ''C'', units = Fin 1, unit_price = Fin 1, Row.sales = Fin 2\<rparr>]"
  by (simp add: rows_aggregate rowsUnsorted_def nan_total_def to_row_sale_any s2n_Infinity
      s2n_neg_Infinity sort_simps)

lemma totals_nan_total:
  "map total_sales (productTotalsArr (aggregate env_utc nan_total)) = [Fin 1, NaN, Fin 2]"
  unfolding total_sales_arr rows_nan_total
  by (simp add: total_simps fl_int_simps Array_sort_def fsub_def is_pos_def)

section \<open>The keys of the monthly output\<close>

lemma digits_of_small: "n < 10 \<Longrightarrow> digits_of n = [digit_char n]"
  using digits_of.simps[of n] by simp

lemma digits_of_step: "10 \<le> n \<Longrightarrow> digits_of n = digits_of (n div 10) @ [digit_char (n mod 10)]"
  using digits_of.simps[of n] by simp

lemma digits_of_two: "10 \<le> n \<Longrightarrow> n < 100 \<Longrightarrow> digits_of n = [digit_char (n div 10), digit_char (n mod 10)]"
  by (simp add: digits_of_step digits_of_small)

lemma length_digits_of_four: "1000 \<le> n \<Longrightarrow> n < 10000 \<Longrightarrow> length (digits_of n) = 4"
proof -
  assume a: "1000 \<le> n" "n < 10000"
  have "digits_of n = digits_of (n div 10) @ [digit_char (n mod 10)]"
    using a by (intro digits_of_step) simp
  moreover have "digits_of (n div 10) = digits_of (n div 10 div 10) @ [digit_char (n div 10 mod 10)]"
    using a by (intro digits_of_step) simp
  moreover have "10 \<le> n div 10 div 10" "n div 10 div 10 < 100"
    using a by simp_all
  ultimately show ?thesis
    by (simp add: digits_of_two)
qed

lemma MonthFromTime_range: "0 \<le> MonthFromTime t \<and> MonthFromTime t \<le> 11"
  by (simp add: MonthFromTime_def Let_def)

lemma pad_month:
  assumes "0 \<le> m" "m \<le> 11"
  shows "padStart (String_of (Some (m + 1))) 2 CHR ''0'' =
         [digit_char (nat (m + 1) div 10), digit_char (nat (m + 1) mod 10)]"
proof (cases "m + 1 < 10")
  case True
  then have "nat (m + 1) < 10" by simp
  then have "digits_of (nat (m + 1)) = [digit_char (nat (m + 1))]"
    by (rule digits_of_small)
  moreover have "nat (m + 1) div 10 = 0" "nat (m + 1) mod 10 = nat (m + 1)"
    using \<open>nat (m + 1) < 10\<close> by simp_all
  ultimately show ?thesis
    using assms by (simp add: padStart_def String_of_def digit_char_def)
next
  case False
  then have "10 \<le> nat (m + 1)" "nat (m + 1) < 100" using assms by simp_all
  then have "digits_of (nat (m + 1)) = [digit_char (nat (m + 1) div 10), digit_char (nat (m + 1) mod 10)]"
    by (rule digits_of_two)
  then show ?thesis
    using assms by (simp add: padStart_def String_of_def)
qed

lemma monthKey_format:
  "monthKey env (Fin (of_int t)) =
     String_of (Some (YearFromTime (LocalTime env t))) @ ''-'' @
     [digit_char (nat (MonthFromTime (LocalTime env t) + 1) div 10),
      digit_char (nat (MonthFromTime (LocalTime env t) + 1) mod 10)]"
  using pad_month[of "MonthFromTime (LocalTime env t)"] MonthFromTime_range[of "LocalTime env t"]
  by (simp add: monthKey_def getFullYear_def getMonth_def)

lemma cmp_key_rel: "(\<not> is_pos (cmp_key a b)) = (key a \<le> key b)"
  by (auto simp: cmp_key_def localeCompare_def is_pos_def)

lemma map_key_pct_changes: "map key (pct_changes ms) = map key ms"
  by (rule map_pct_changes) simp

lemma monthly_keys:
  "map key (monthly (aggregate env data)) =
     map key (Array_sort cmp_key (map snd (monthlyMap env (rows (aggregate env data)))))"
  by (simp add: monthly_aggregate map_key_pct_changes)

lemma monthlyMap_keys: "map (key \<circ> snd) (monthlyMap env rs) = map fst (monthlyMap env rs)"
  using monthlyMap_ok[of env rs] by (simp add: bucket_ok_def)

lemma keys_sorted: "sorted (map key (monthly (aggregate env data)))"
proof -
  have "sorted_wrt (\<lambda>a b. key a \<le> key b)
          (Array_sort cmp_key (map snd (monthlyMap env (rows (aggregate env data)))))"
    by (rule sorted_Array_sort[where S = UNIV]) (auto simp: cmp_key_rel)
  then show ?thesis
    unfolding monthly_keys by (simp add: sorted_wrt_map)
qed

lemma keys_distinct: "distinct (map key (monthly (aggregate env data)))"
proof -
  define m where "m = monthlyMap env (rows (aggregate env data))"
  have "mset (map key (Array_sort cmp_key (map snd m))) = mset (map key (map snd m))"
    by (simp only: mset_map mset_Array_sort)
  also have "\<dots> = mset (map fst m)"
    using monthlyMap_keys[of env "rows (aggregate env data)"] unfolding m_def
    by (simp only: map_map)
  finally have "mset (map key (monthly (aggregate env data))) = mset (map fst m)"
    unfolding monthly_keys m_def .
  moreover have "distinct (map fst m)"
    using monthlyMap_ok[of env "rows (aggregate env data)"] unfolding m_def by simp
  ultimately show ?thesis
    using mset_eq_imp_distinct_iff by blast
qed

lemma keys_of_rows:
  assumes "b \<in> set (monthly (aggregate env data))"
  shows "\<exists>r\<in>set (rows (aggregate env data)). key b = monthKey env (date r)"
proof -
  define m where "m = monthlyMap env (rows (aggregate env data))"
  from assms have "key b \<in> set (map key (monthly (aggregate env data)))" by simp
  then have "key b \<in> key ` set (Array_sort cmp_key (map snd m))"
    unfolding monthly_keys m_def by simp
  then have "key b \<in> key ` snd ` set m"
    by (simp only: set_Array_sort set_map)
  then obtain e where "e \<in> set m" "key b = key (snd e)" by auto
  then show ?thesis
    using monthlyMap_ok[of env "rows (aggregate env data)"] unfolding m_def bucket_ok_def by metis
qed

lemma key_10000: "monthKey env_utc (Fin 253402300800000) = ''10000-01''"
  by (simp add: key_simps env_utc_def Let_def)

lemma monthly_10000: "map key (monthly (aggregate env_utc year_10000)) = [''10000-01'']"
  unfolding monthly_keys
  by (simp add: rows_aggregate rowsUnsorted_def year_10000_def to_row_sale_any Array_sort_def
      monthlyMap_def add_month_def Map_get_def key_10000 Let_def)

section \<open>Sums of integers\<close>

lemma is_int_numD: "is_int_num x \<Longrightarrow> x = Fin (of_int (int_val x))"
  by (cases x) (simp_all add: is_int_num_def int_val_def)

lemma is_int_num_of_int [simp]: "is_int_num (Fin (of_int n))"
  by (simp add: is_int_num_def)

lemma int_val_of_int [simp]: "int_val (Fin (of_int n)) = n"
  by (simp add: int_val_def)

lemma fadd_int:
  assumes "\<bar>a + b\<bar> \<le> 2 ^ 53"
  shows "fadd (Fin (of_int a)) (Fin (of_int b)) = Fin (of_int (a + b))"
  using fl_of_int[OF assms] by simp

lemma or_zero_int: "or_zero (Fin (of_int a)) = Fin (of_int a)"
  by (simp add: or_zero_def truthy_def)

lemma foldl_fadd_int:
  assumes "\<forall>x\<in>set xs. is_int_num x" and "\<bar>a\<bar> + (\<Sum>x\<leftarrow>xs. \<bar>int_val x\<bar>) \<le> 2 ^ 53"
  shows "foldl fadd (Fin (of_int a)) xs = Fin (of_int (a + (\<Sum>x\<leftarrow>xs. int_val x)))"
  using assms
proof (induction xs arbitrary: a)
  case Nil
  then show ?case by simp
next
  case (Cons x xs)
  define b where "b = int_val x"
  have x: "x = Fin (of_int b)" using Cons.prems(1) unfolding b_def by (simp add: is_int_numD)
  have bound: "\<bar>a\<bar> + \<bar>b\<bar> + (\<Sum>x\<leftarrow>xs. \<bar>int_val x\<bar>) \<le> 2 ^ 53"
    using Cons.prems(2) unfolding b_def by simp
  have nn: "0 \<le> (\<Sum>x\<leftarrow>xs. \<bar>int_val x\<bar>)"
    by (rule sum_list_nonneg) auto
  have "\<bar>a + b\<bar> \<le> 2 ^ 53" using bound nn by linarith
  then have s: "fadd (Fin (of_int a)) x = Fin (of_int (a + b))"
    unfolding x by (rule fadd_int)
  have "\<bar>a + b\<bar> + (\<Sum>x\<leftarrow>xs. \<bar>int_val x\<bar>) \<le> 2 ^ 53" using bound by linarith
  with Cons.IH[of "a + b"] Cons.prems(1)
  have "foldl fadd (Fin (of_int (a + b))) xs = Fin (of_int (a + b + (\<Sum>x\<leftarrow>xs. int_val x)))"
    by simp
  then show ?case using s by (simp add: b_def add.assoc)
qed

lemma sum_num_int:
  assumes "\<forall>x\<in>set xs. is_int_num x" and "(\<Sum>x\<leftarrow>xs. \<bar>int_val x\<bar>) \<le> 2 ^ 53"
  shows "sum_num xs = Fin (of_int (\<Sum>x\<leftarrow>xs. int_val x))"
  using foldl_fadd_int[of xs 0] assms by (simp add: sum_num_def)

lemma abs_elem_le_sum_list:
  fixes f :: "'a \<Rightarrow> int"
  assumes "x \<in> set xs"
  shows "\<bar>f x\<bar> \<le> (\<Sum>y\<leftarrow>xs. \<bar>f y\<bar>)"
  using assms
proof (induction xs)
  case Nil
  then show ?case by simp
next
  case (Cons y ys)
  have "0 \<le> (\<Sum>y\<leftarrow>ys. \<bar>f y\<bar>)" by (rule sum_list_nonneg) auto
  with Cons show ?case by auto
qed

lemma Map_set_int:
  fixes g :: "'v \<Rightarrow> jsnum"
  assumes ints: "\<forall>e\<in>set m. is_int_num (g (snd e))"
    and gc: "g c = fadd (case map_of m k of None \<Rightarrow> Fin 0 | Some w \<Rightarrow> g w) s"
    and s: "is_int_num s"
    and bound: "(\<Sum>e\<leftarrow>m. \<bar>int_val (g (snd e))\<bar>) + \<bar>int_val s\<bar> \<le> 2 ^ 53"
  shows "(\<forall>e\<in>set (Map_set m k c). is_int_num (g (snd e))) \<and>
         (\<Sum>e\<leftarrow>Map_set m k c. int_val (g (snd e))) = (\<Sum>e\<leftarrow>m. int_val (g (snd e))) + int_val s \<and>
         (\<Sum>e\<leftarrow>Map_set m k c. \<bar>int_val (g (snd e))\<bar>) \<le> (\<Sum>e\<leftarrow>m. \<bar>int_val (g (snd e))\<bar>) + \<bar>int_val s\<bar>"
proof -
  define old where "old = (case map_of m k of None \<Rightarrow> 0 | Some w \<Rightarrow> int_val (g w))"
  define b where "b = int_val s"
  have sb: "s = Fin (of_int b)" using s unfolding b_def by (rule is_int_numD)
  have oldv: "(case map_of m k of None \<Rightarrow> Fin 0 | Some w \<Rightarrow> g w) = Fin (of_int old)"
  proof (cases "map_of m k")
    case None
    then show ?thesis by (simp add: old_def)
  next
    case (Some w)
    then have "(k, w) \<in> set m" by (rule map_of_SomeD)
    with ints have "is_int_num (g w)" by force
    then show ?thesis using Some by (simp add: old_def is_int_numD[symmetric])
  qed
  have oldb: "\<bar>old\<bar> \<le> (\<Sum>e\<leftarrow>m. \<bar>int_val (g (snd e))\<bar>)"
  proof (cases "map_of m k")
    case None
    have "0 \<le> (\<Sum>e\<leftarrow>m. \<bar>int_val (g (snd e))\<bar>)" by (rule sum_list_nonneg) auto
    then show ?thesis using None by (simp add: old_def)
  next
    case (Some w)
    then have "(k, w) \<in> set m" by (rule map_of_SomeD)
    from abs_elem_le_sum_list[OF this, of "\<lambda>e. int_val (g (snd e))"]
    show ?thesis using Some by (simp add: old_def)
  qed
  have "\<bar>old + b\<bar> \<le> 2 ^ 53" using oldb bound unfolding b_def by linarith
  then have c: "g c = Fin (of_int (old + b))"
    unfolding gc oldv sb by (rule fadd_int)
  have 1: "\<forall>e\<in>set (Map_set m k c). is_int_num (g (snd e))"
  proof
    fix e
    assume "e \<in> set (Map_set m k c)"
    then have "e = (k, c) \<or> e \<in> set m"
      using set_Map_set[of m k c] by blast
    then show "is_int_num (g (snd e))"
      using ints c by (auto simp del: of_int_add)
  qed
  have 2: "(\<Sum>e\<leftarrow>Map_set m k c. int_val (g (snd e))) + old = (\<Sum>e\<leftarrow>m. int_val (g (snd e))) + (old + b)"
    using sum_Map_set[of "\<lambda>v. int_val (g v)" m k c] c
    by (simp add: old_def del: of_int_add split: option.splits)
  have 3: "(\<Sum>e\<leftarrow>Map_set m k c. \<bar>int_val (g (snd e))\<bar>) + \<bar>old\<bar> = (\<Sum>e\<leftarrow>m. \<bar>int_val (g (snd e))\<bar>) + \<bar>old + b\<bar>"
    using sum_Map_set[of "\<lambda>v. \<bar>int_val (g v)\<bar>" m k c] c
    by (simp add: old_def del: of_int_add split: option.splits)
  show ?thesis
    using 1 2 3 unfolding b_def by (intro conjI) linarith+
qed

lemma foldl_int_sums:
  fixes step :: "('k \<times> 'v) list \<Rightarrow> Row \<Rightarrow> ('k \<times> 'v) list" and g :: "'v \<Rightarrow> jsnum"
  assumes step: "\<And>m r. \<forall>e\<in>set m. is_int_num (g (snd e)) \<Longrightarrow>
      \<exists>k c. step m r = Map_set m k c \<and>
        g c = fadd (case map_of m k of None \<Rightarrow> Fin 0 | Some w \<Rightarrow> g w) (Row.sales r)"
    and "\<forall>e\<in>set m. is_int_num (g (snd e))"
    and "\<forall>r\<in>set rs. is_int_num (Row.sales r)"
    and "(\<Sum>e\<leftarrow>m. \<bar>int_val (g (snd e))\<bar>) + (\<Sum>r\<leftarrow>rs. \<bar>int_val (Row.sales r)\<bar>) \<le> 2 ^ 53"
  shows "(\<forall>e\<in>set (foldl step m rs). is_int_num (g (snd e))) \<and>
         (\<Sum>e\<leftarrow>foldl step m rs. int_val (g (snd e))) =
           (\<Sum>e\<leftarrow>m. int_val (g (snd e))) + (\<Sum>r\<leftarrow>rs. int_val (Row.sales r)) \<and>
         (\<Sum>e\<leftarrow>foldl step m rs. \<bar>int_val (g (snd e))\<bar>) \<le>
           (\<Sum>e\<leftarrow>m. \<bar>int_val (g (snd e))\<bar>) + (\<Sum>r\<leftarrow>rs. \<bar>int_val (Row.sales r)\<bar>)"
  using assms(2-)
proof (induction rs arbitrary: m)
  case Nil
  then show ?case by simp
next
  case (Cons r rs)
  from step[OF Cons.prems(1), of r] obtain k c where st: "step m r = Map_set m k c"
    and gc: "g c = fadd (case map_of m k of None \<Rightarrow> Fin 0 | Some w \<Rightarrow> g w) (Row.sales r)"
    by blast
  have nn: "0 \<le> (\<Sum>r\<leftarrow>rs. \<bar>int_val (Row.sales r)\<bar>)" by (rule sum_list_nonneg) auto
  have b1: "(\<Sum>e\<leftarrow>m. \<bar>int_val (g (snd e))\<bar>) + \<bar>int_val (Row.sales r)\<bar> \<le> 2 ^ 53"
    using Cons.prems(3) nn by simp
  from Map_set_int[OF Cons.prems(1) gc _ b1] Cons.prems(2)
  have m1: "\<forall>e\<in>set (step m r). is_int_num (g (snd e))"
    and m2: "(\<Sum>e\<leftarrow>step m r. int_val (g (snd e))) = (\<Sum>e\<leftarrow>m. int_val (g (snd e))) + int_val (Row.sales r)"
    and m3: "(\<Sum>e\<leftarrow>step m r. \<bar>int_val (g (snd e))\<bar>) \<le> (\<Sum>e\<leftarrow>m. \<bar>int_val (g (snd e))\<bar>) + \<bar>int_val (Row.sales r)\<bar>"
    unfolding st by simp_all
  have b2: "(\<Sum>e\<leftarrow>step m r. \<bar>int_val (g (snd e))\<bar>) + (\<Sum>r\<leftarrow>rs. \<bar>int_val (Row.sales r)\<bar>) \<le> 2 ^ 53"
    using m3 Cons.prems(3) by simp
  from Cons.IH[OF m1 _ b2] Cons.prems(2)
  have "(\<forall>e\<in>set (foldl step (step m r) rs). is_int_num (g (snd e))) \<and>
         (\<Sum>e\<leftarrow>foldl step (step m r) rs. int_val (g (snd e))) =
           (\<Sum>e\<leftarrow>step m r. int_val (g (snd e))) + (\<Sum>r\<leftarrow>rs. int_val (Row.sales r)) \<and>
         (\<Sum>e\<leftarrow>foldl step (step m r) rs. \<bar>int_val (g (snd e))\<bar>) \<le>
           (\<Sum>e\<leftarrow>step m r. \<bar>int_val (g (snd e))\<bar>) + (\<Sum>r\<leftarrow>rs. \<bar>int_val (Row.sales r)\<bar>)"
    by simp
  then show ?case using m2 m3 by simp
qed

section \<open>Conservation of the sales\<close>

lemma sum_list_mset_cong:
  fixes f :: "'a \<Rightarrow> 'b::comm_monoid_add"
  assumes "mset xs = mset ys"
  shows "sum_list (map f xs) = sum_list (map f ys)"
proof -
  have "sum_mset (mset (map f xs)) = sum_mset (mset (map f ys))"
    using assms by (metis mset_map)
  then show ?thesis by (simp only: sum_mset_sum_list)
qed

lemma add_product_step:
  assumes "\<forall>e\<in>set m. is_int_num (snd e)"
  shows "\<exists>k c. add_product m r = Map_set m k c \<and>
           c = fadd (case map_of m k of None \<Rightarrow> Fin 0 | Some w \<Rightarrow> w) (Row.sales r)"
proof -
  have "(case map_of m (Row.product r) of None \<Rightarrow> Fin 0 | Some t \<Rightarrow> or_zero t) =
        (case map_of m (Row.product r) of None \<Rightarrow> Fin 0 | Some w \<Rightarrow> w)"
  proof (cases "map_of m (Row.product r)")
    case None
    then show ?thesis by simp
  next
    case (Some w)
    then have "(Row.product r, w) \<in> set m" by (rule map_of_SomeD)
    with assms have "is_int_num w" by force
    then have "or_zero w = w" using or_zero_int by (metis is_int_numD)
    then show ?thesis using Some by simp
  qed
  then show ?thesis
    unfolding add_product_def Map_get_def by auto
qed

lemma add_month_step:
  "\<exists>k c. add_month env m r = Map_set m k c \<and>
     MonthlyRow.sales c = fadd (case map_of m k of None \<Rightarrow> Fin 0 | Some w \<Rightarrow> MonthlyRow.sales w) (Row.sales r)"
  unfolding add_month_eq by (intro exI conjI, rule refl) (simp split: option.splits)

lemma productTotals_exact:
  assumes "exact_sales rs"
  shows "(\<forall>e\<in>set (productTotals rs). is_int_num (snd e)) \<and>
         (\<Sum>e\<leftarrow>productTotals rs. int_val (snd e)) = (\<Sum>r\<leftarrow>rs. int_val (Row.sales r)) \<and>
         (\<Sum>e\<leftarrow>productTotals rs. \<bar>int_val (snd e)\<bar>) \<le> 2 ^ 53"
  using foldl_int_sums[where g = "\<lambda>v. v" and step = add_product and m = "[]" and rs = rs,
      OF add_product_step] assms
  by (simp add: productTotals_def exact_sales_def)

lemma monthlyMap_exact:
  assumes "exact_sales rs"
  shows "(\<forall>e\<in>set (monthlyMap env rs). is_int_num (MonthlyRow.sales (snd e))) \<and>
         (\<Sum>e\<leftarrow>monthlyMap env rs. int_val (MonthlyRow.sales (snd e))) = (\<Sum>r\<leftarrow>rs. int_val (Row.sales r)) \<and>
         (\<Sum>e\<leftarrow>monthlyMap env rs. \<bar>int_val (MonthlyRow.sales (snd e))\<bar>) \<le> 2 ^ 53"
  using foldl_int_sums[where g = MonthlyRow.sales and step = "add_month env" and m = "[]" and rs = rs,
      OF add_month_step] assms
  by (simp add: monthlyMap_def exact_sales_def)

lemma rows_sum_exact:
  assumes "exact_sales rs"
  shows "sum_num (map Row.sales rs) = Fin (of_int (\<Sum>r\<leftarrow>rs. int_val (Row.sales r)))"
  using sum_num_int[of "map Row.sales rs"] assms by (simp add: exact_sales_def comp_def)

lemma sorted_sum_exact:
  fixes g :: "'v \<Rightarrow> jsnum"
  assumes "\<forall>e\<in>set m. is_int_num (g e)" "(\<Sum>e\<leftarrow>m. \<bar>int_val (g e)\<bar>) \<le> 2 ^ 53"
  shows "sum_num (map g (Array_sort cmp m)) = Fin (of_int (\<Sum>e\<leftarrow>m. int_val (g e)))"
proof -
  have p: "mset (Array_sort cmp m) = mset m" by (rule mset_Array_sort)
  have 1: "\<forall>x\<in>set (map g (Array_sort cmp m)). is_int_num x"
    using assms(1) by (simp add: set_Array_sort)
  have 2: "(\<Sum>x\<leftarrow>map g (Array_sort cmp m). \<bar>int_val x\<bar>) = (\<Sum>e\<leftarrow>m. \<bar>int_val (g e)\<bar>)"
    using sum_list_mset_cong[OF p, of "\<lambda>e. \<bar>int_val (g e)\<bar>"] by (simp add: comp_def)
  have 3: "(\<Sum>x\<leftarrow>map g (Array_sort cmp m). int_val x) = (\<Sum>e\<leftarrow>m. int_val (g e))"
    using sum_list_mset_cong[OF p, of "\<lambda>e. int_val (g e)"] by (simp add: comp_def)
  show ?thesis
    using sum_num_int[OF 1] assms(2) unfolding 2 3 by simp
qed

lemma totals_conserved:
  assumes "exact_sales (rows (aggregate env data))"
  shows "sum_num (map total_sales (productTotalsArr (aggregate env data))) =
         sum_num (map Row.sales (rows (aggregate env data)))"
proof -
  note e = productTotals_exact[OF assms]
  have "sum_num (map snd (Array_sort cmp_total (productTotals (rows (aggregate env data))))) =
        Fin (of_int (\<Sum>e\<leftarrow>productTotals (rows (aggregate env data)). int_val (snd e)))"
    using e by (intro sorted_sum_exact) simp_all
  then show ?thesis
    using e rows_sum_exact[OF assms] by (simp add: total_sales_arr)
qed

lemma map_sales_monthly:
  "map MonthlyRow.sales (monthly (aggregate env data)) =
     map MonthlyRow.sales (Array_sort cmp_key (map snd (monthlyMap env (rows (aggregate env data)))))"
  unfolding monthly_aggregate by (rule map_pct_changes) simp

lemma map_transactions_monthly:
  "map transactions (monthly (aggregate env data)) =
     map transactions (Array_sort cmp_key (map snd (monthlyMap env (rows (aggregate env data)))))"
  unfolding monthly_aggregate by (rule map_pct_changes) simp

lemma months_conserved:
  assumes "exact_sales (rows (aggregate env data))"
  shows "sum_num (map MonthlyRow.sales (monthly (aggregate env data))) =
         sum_num (map Row.sales (rows (aggregate env data)))"
proof -
  note e = monthlyMap_exact[OF assms, of env]
  have "sum_num (map MonthlyRow.sales (Array_sort cmp_key (map snd (monthlyMap env (rows (aggregate env data)))))) =
        Fin (of_int (\<Sum>e\<leftarrow>map snd (monthlyMap env (rows (aggregate env data))). int_val (MonthlyRow.sales e)))"
    using e by (intro sorted_sum_exact) (simp_all add: comp_def)
  then show ?thesis
    using e rows_sum_exact[OF assms] by (simp add: map_sales_monthly comp_def)
qed

lemma transactions_total:
  "(\<Sum>b\<leftarrow>monthly (aggregate env data). transactions b) = length (rows (aggregate env data))"
proof -
  define m where "m = monthlyMap env (rows (aggregate env data))"
  have "(\<Sum>b\<leftarrow>monthly (aggregate env data). transactions b) =
        sum_list (map transactions (Array_sort cmp_key (map snd m)))"
    unfolding m_def by (simp only: map_transactions_monthly)
  also have "\<dots> = sum_list (map transactions (map snd m))"
    by (rule sum_list_mset_cong) (rule mset_Array_sort)
  also have "\<dots> = length (rows (aggregate env data))"
    using monthlyMap_transactions[of env "[]" "rows (aggregate env data)"]
    unfolding m_def monthlyMap_def by (simp add: comp_def)
  finally show ?thesis .
qed

lemma transactions_positive:
  assumes "b \<in> set (monthly (aggregate env data))"
  shows "1 \<le> transactions b"
proof -
  define m where "m = monthlyMap env (rows (aggregate env data))"
  from assms have "transactions b \<in> set (map transactions (monthly (aggregate env data)))" by simp
  then have "transactions b \<in> transactions ` set (Array_sort cmp_key (map snd m))"
    unfolding map_transactions_monthly m_def by simp
  then have "transactions b \<in> transactions ` snd ` set m"
    by (simp only: set_Array_sort set_map)
  then obtain e where "e \<in> set m" "transactions b = transactions (snd e)" by auto
  then show ?thesis
    using monthlyMap_ok[of env "rows (aggregate env data)"] unfolding m_def bucket_ok_def by metis
qed

section \<open>Sales that round\<close>

lemmas fl_simps = fl_def expo_def ilog2.simps round_even_def Let_def

lemma fl_big:
  "fl 10000000000000000 = Fin 10000000000000000"
  "fl 10000000000000001 = Fin 10000000000000000"
  "fl 10000000000000002 = Fin 10000000000000002"
  "fl 9999999999999998 = Fin 9999999999999998"
  "fl (- 9999999999999998) = Fin (- 9999999999999998)"
  by (simp_all add: fl_simps)

lemma exact_three_months: "exact_sales (rows (aggregate env_utc three_months))"
  by (simp add: rows3 exact_sales_def is_int_num_def int_val_def)

lemma totals_three_months:
  "map total_sales (productTotalsArr (aggregate env_utc three_months)) = [Fin 250, Fin 90]"
  unfolding total_sales_arr rows3
  by (simp add: total_simps fl_int_simps Array_sort_def fsub_def is_pos_def)

lemma rows_rounding_products: "rows (aggregate env_utc rounding_products) = [
   \<lparr>date = Fin 0, Row.product = VStr ''B'', units = Fin 1, unit_price = Fin 1, Row.sales = Fin 1\<rparr>,
   \<lparr>date = Fin 1, Row.product = VStr ''A'', units = Fin 1, unit_price = Fin 1, Row.sales = Fin 10000000000000000\<rparr>,
   \<lparr>date = Fin 2, Row.product = VStr ''A'', units = Fin 1, unit_price = Fin 1, Row.sales = Fin 1\<rparr>,
   \<lparr>date = Fin 3, Row.product = VStr ''B'', units = Fin 1, unit_price = Fin 1, Row.sales = Fin 1\<rparr>]"
  by (simp add: rows_aggregate rowsUnsorted_def rounding_products_def to_row_sale_any sort_simps)

lemma totals_rounding_products:
  "map total_sales (productTotalsArr (aggregate env_utc rounding_products)) =
     [Fin 10000000000000000, Fin 2]"
  unfolding total_sales_arr rows_rounding_products
  by (simp add: total_simps fl_int_simps fl_big Array_sort_def fsub_def is_pos_def)

lemma rows_rounding_months: "rows (aggregate env_utc rounding_months) = [
   \<lparr>date = Fin 0, Row.product = VStr ''A'', units = Fin 1, unit_price = Fin 1, Row.sales = Fin 10000000000000000\<rparr>,
   \<lparr>date = Fin 1, Row.product = VStr ''A'', units = Fin 1, unit_price = Fin 1, Row.sales = Fin 1\<rparr>,
   \<lparr>date = Fin 2678400000, Row.product = VStr ''A'', units = Fin 1, unit_price = Fin 1, Row.sales = Fin 1\<rparr>,
   \<lparr>date = Fin 2678400001, Row.product = VStr ''A'', units = Fin 1, unit_price = Fin 1, Row.sales = Fin 1\<rparr>]"
  by (simp add: rows_aggregate rowsUnsorted_def rounding_months_def to_row_sale_any sort_simps)

lemma k2': "monthKey env_utc (Fin 2678400001) = ''1970-02''"
  by (simp add: key_simps env_utc_def Let_def)

lemma monthly_rounding_months:
  "map MonthlyRow.sales (monthly (aggregate env_utc rounding_months)) = [Fin 10000000000000000, Fin 2]"
  unfolding map_sales_monthly rows_rounding_months
  by (simp add: monthlyMap_def add_month_def Map_get_def k1 k1' k2 k2' Let_def fl_int_simps fl_big
      Array_sort_def cmp_key_def localeCompare_def is_pos_def)

section \<open>Percentages\<close>







section \<open>The store\<close>

lemma cell_at_append:
  "cell_at (s @ t) p = (if p < length s then cell_at s p else cell_at t (p - length s))"
  by (auto simp: cell_at_def nth_append)

lemma cell_at_append_old: "cell_at s p \<noteq> None \<Longrightarrow> cell_at (s @ t) p = cell_at s p"
  by (auto simp: cell_at_def nth_append split: if_splits)

lemma record_at_append_old: "record_at s p \<noteq> None \<Longrightarrow> record_at (s @ t) p = record_at s p"
  using cell_at_append_old[of s p t] by (auto simp: record_at_def split: option.splits)

lemma read_data_append:
  assumes "read_data s a = Inr data"
  shows "read_data (s @ t) a = Inr data"
proof -
  from assms obtain ps where c: "cell_at s a = Some (Refs ps)"
    and all: "list_all (\<lambda>p. record_at s p \<noteq> None) ps"
    and d: "data = map (\<lambda>p. the (record_at s p)) ps"
    by (auto simp: read_data_def split: option.splits cell.splits if_splits)
  have c': "cell_at (s @ t) a = Some (Refs ps)"
    using cell_at_append_old[of s a t] c by simp
  have r: "record_at (s @ t) p = record_at s p" if "p \<in> set ps" for p
    using that all by (intro record_at_append_old) (simp add: list_all_iff)
  have "list_all (\<lambda>p. record_at (s @ t) p \<noteq> None) ps"
    using all r by (simp add: list_all_iff)
  moreover have "map (\<lambda>p. the (record_at (s @ t) p)) ps = data"
    unfolding d using r by simp
  ultimately show ?thesis
    using c' by (simp add: read_data_def)
qed

lemma get_old:
  assumes "p < length s"
  shows "get_rows (s @ t) p = get_rows s p" "get_months (s @ t) p = get_months s p"
    "get_totals (s @ t) p = get_totals s p"
  using assms by (simp_all add: get_rows_def get_months_def get_totals_def cell_at_def nth_append)

lemma rows_st_run:
  "rows_st env data s =
     (Suc (length s), s @ [Rows (map (to_row env) data),
                           Rows (map Some (Array_sort cmp_date (rowsUnsorted env data)))])"
  by (simp add: rows_st_def alloc_def write_cell_def get_rows_def cell_at_def rowsUnsorted_def
      Let_def nth_append list_update_append comp_def)

lemma totals_st_run:
  assumes "a < length s" "get_rows s a = map Some rs"
  shows "totals_st a s =
     (Suc (length s),
      s @ [Entries (productTotals rs),
           Totals (map (with_percent (totalAll (Array_sort cmp_total (productTotals rs))))
                    (Array_sort cmp_total (productTotals rs)))])"
proof -
  have r: "get_rows (s @ [Entries []]) a = map Some rs"
    using assms get_old(1)[of a s] by simp
  show ?thesis
    by (simp add: totals_st_def alloc_def write_cell_def r get_entries_def cell_at_def productTotals_def
        Let_def nth_append list_update_append comp_def)
qed

lemma monthly_st_run:
  assumes "a < length s" "get_rows s a = map Some rs"
  shows "monthly_st env a s =
     (Suc (length s),
      s @ [MonthMap (monthlyMap env rs),
           Months (pct_changes (Array_sort cmp_key (map snd (monthlyMap env rs))))])"
proof -
  have r: "get_rows (s @ [MonthMap []]) a = map Some rs"
    using assms get_old(1)[of a s] by simp
  show ?thesis
    by (simp add: monthly_st_def alloc_def write_cell_def r get_month_map_def get_months_def cell_at_def
        monthlyMap_def Let_def nth_append list_update_append comp_def)
qed

lemma baselines_st_run:
  assumes "a < length s" "get_months s a = ms"
  shows "baselines_st a s =
     ((if length ms \<noteq> 0 then map MonthlyRow.sales ms ! (length ms - 1) else Fin 0,
       if min 3 (length ms) \<noteq> 0
       then fdiv (foldl fadd (Fin 0) (drop (length ms - min 3 (length ms)) (map MonthlyRow.sales ms)))
              (Fin (real (min 3 (length ms))))
       else Fin 0),
      s @ [Nums (map MonthlyRow.sales ms)] @
        (if ms = [] then [] else [Nums (drop (length ms - min 3 (length ms)) (map MonthlyRow.sales ms))]))"
  using assms
  by (simp add: baselines_st_def alloc_def get_nums_def cell_at_def Let_def nth_append)

text \<open>A call appends cells to the store and changes nothing else.\<close>

lemma aggregate_st_run:
  assumes "read_data s a = Inr data"
  shows "\<exists>t. aggregate_st env a s =
     (Inr \<lparr>rows_ref = length s + 1, totals_ref = length s + 3, monthly_ref = length s + 5,
           naive_val = naive (aggregate env data), ma_val = ma (aggregate env data)\<rparr>,
      s @ [Rows (map (to_row env) data),
           Rows (map Some (rows (aggregate env data))),
           Entries (productTotals (rows (aggregate env data))),
           Totals (productTotalsArr (aggregate env data)),
           MonthMap (monthlyMap env (rows (aggregate env data))),
           Months (monthly (aggregate env data))] @ t)"
proof -
  define rs where "rs = rows (aggregate env data)"
  define c1 where "c1 = Rows (map (to_row env) data)"
  define s3 where "s3 = s @ [c1, Rows (map Some rs)]"
  have 1: "rows_st env data s = (Suc (length s), s3)"
    unfolding s3_def c1_def rs_def rows_aggregate by (rule rows_st_run)
  have g3: "Suc (length s) < length s3" "get_rows s3 (Suc (length s)) = map Some rs"
    by (simp_all add: s3_def get_rows_def cell_at_def nth_append)
  define s8 where "s8 = s3 @ [Entries (productTotals rs), Totals (productTotalsArr (aggregate env data))]"
  have 2: "totals_st (Suc (length s)) s3 = (Suc (length s3), s8)"
    unfolding s8_def productTotalsArr_aggregate rs_def[symmetric]
    by (rule totals_st_run[OF g3])
  have g8: "Suc (length s) < length s8" "get_rows s8 (Suc (length s)) = map Some rs"
    using g3 get_old(1)[of "Suc (length s)" s3] by (simp_all add: s8_def)
  define s13 where "s13 = s8 @ [MonthMap (monthlyMap env rs), Months (monthly (aggregate env data))]"
  have 3: "monthly_st env (Suc (length s)) s8 = (Suc (length s8), s13)"
    unfolding s13_def monthly_aggregate rs_def[symmetric]
    by (rule monthly_st_run[OF g8])
  have g13: "Suc (length s8) < length s13" "get_months s13 (Suc (length s8)) = monthly (aggregate env data)"
    by (simp_all add: s13_def get_months_def cell_at_def nth_append)
  obtain t where 4: "baselines_st (Suc (length s8)) s13 =
      ((naive (aggregate env data), ma (aggregate env data)), s13 @ t)"
    unfolding baselines_st_run[OF g13] naive_aggregate ma_aggregate
    by (simp add: Let_def)
  have "aggregate_st env a s =
     (Inr \<lparr>rows_ref = Suc (length s), totals_ref = Suc (length s3), monthly_ref = Suc (length s8),
           naive_val = naive (aggregate env data), ma_val = ma (aggregate env data)\<rparr>, s13 @ t)"
    by (simp add: aggregate_st_def assms 1 2 3 4)
  then show ?thesis
    unfolding s13_def s8_def s3_def c1_def rs_def by simp
qed

lemma view_run:
  "view (s @ [c1, Rows (map Some rs), c3, Totals ts, c5, Months ms] @ t)
        \<lparr>rows_ref = length s + 1, totals_ref = length s + 3, monthly_ref = length s + 5,
         naive_val = n, ma_val = m\<rparr> =
     \<lparr>rows = rs, productTotalsArr = ts, monthly = ms, naive = n, ma = m\<rparr>"
  by (simp add: view_def get_rows_def get_totals_def get_months_def cell_at_def nth_append comp_def)

lemma view_old:
  assumes "rows_ref r < length s" "totals_ref r < length s" "monthly_ref r < length s"
  shows "view (s @ t) r = view s r"
  using assms by (simp add: view_def get_old)

lemma aggregate_st_pure:
  assumes "read_data s a = Inr data"
  shows "\<exists>r s'. aggregate_st env a s = (Inr r, s') \<and> take (length s) s' = s \<and>
           read_data s' a = Inr data \<and> view s' r = aggregate env data \<and>
           rows_ref r < length s' \<and> totals_ref r < length s' \<and> monthly_ref r < length s'"
proof -
  from aggregate_st_run[OF assms, of env] obtain t where
    run: "aggregate_st env a s =
     (Inr \<lparr>rows_ref = length s + 1, totals_ref = length s + 3, monthly_ref = length s + 5,
           naive_val = naive (aggregate env data), ma_val = ma (aggregate env data)\<rparr>,
      s @ [Rows (map (to_row env) data),
           Rows (map Some (rows (aggregate env data))),
           Entries (productTotals (rows (aggregate env data))),
           Totals (productTotalsArr (aggregate env data)),
           MonthMap (monthlyMap env (rows (aggregate env data))),
           Months (monthly (aggregate env data))] @ t)"
    by blast
  define r where "r = \<lparr>rows_ref = length s + 1, totals_ref = length s + 3, monthly_ref = length s + 5,
           naive_val = naive (aggregate env data), ma_val = ma (aggregate env data)\<rparr>"
  define s' where "s' = s @ [Rows (map (to_row env) data),
           Rows (map Some (rows (aggregate env data))),
           Entries (productTotals (rows (aggregate env data))),
           Totals (productTotalsArr (aggregate env data)),
           MonthMap (monthlyMap env (rows (aggregate env data))),
           Months (monthly (aggregate env data))] @ t"
  have 0: "aggregate_st env a s = (Inr r, s')"
    unfolding r_def s'_def by (rule run)
  have 1: "take (length s) s' = s"
    unfolding s'_def by simp
  have 2: "read_data s' a = Inr data"
    unfolding s'_def by (rule read_data_append[OF assms])
  have 3: "view s' r = aggregate env data"
    unfolding s'_def r_def by (subst view_run) simp
  have 4: "rows_ref r < length s'" "totals_ref r < length s'" "monthly_ref r < length s'"
    unfolding s'_def r_def by simp_all
  show ?thesis
    using 0 1 2 3 4 by blast
qed

lemma read_store2:
  "read_data store2 0 = Inr [rec_sale 5 ''A'' (VNum (Fin 1)), rec_sale 0 ''B'' (VNum (Fin 7))]"
  by (simp add: read_data_def store2_def cell_at_def record_at_def)

lemma read_store2_bad: "read_data store2 1 = Inl TypeError"
  by (simp add: read_data_def store2_def cell_at_def)

section \<open>The year of a time value\<close>

lemma year_search_spec:
  "DayFromYear y \<le> d \<Longrightarrow>
     DayFromYear (year_search d y) \<le> d \<and> d < DayFromYear (year_search d y + 1)"
proof (induction d y rule: year_search.induct)
  case (1 d y)
  show ?case
  proof (cases "DayFromYear (y + 1) \<le> d")
    case True
    then have "year_search d y = year_search d (y + 1)"
      by (subst year_search.simps) simp
    then show ?thesis using "1.IH"[OF True True] by simp
  next
    case False
    then have "year_search d y = y"
      by (subst year_search.simps) simp
    then show ?thesis using False "1.prems" by simp
  qed
qed

lemma year_estimate_nonneg:
  assumes "0 \<le> k"
  shows "DayFromYear (1970 + k) \<le> 366 * k"
proof -
  have a: "4 * ((k + 1) div 4) \<le> k + 1" "0 \<le> (k + 69) div 100" "400 * ((k + 369) div 400) \<le> k + 369"
    using assms by (simp_all add: pos_imp_zdiv_nonneg_iff)
  have e: "DayFromYear (1970 + k) = 365 * k + (k + 1) div 4 - (k + 69) div 100 + (k + 369) div 400"
    by (simp add: DayFromYear_def add.commute)
  consider "k = 0" | "k = 1" | "2 \<le> k" using assms by linarith
  then show ?thesis
  proof cases
    case 1
    then show ?thesis by (simp add: DayFromYear_def)
  next
    case 2
    then show ?thesis by (simp add: DayFromYear_def)
  next
    case 3
    then show ?thesis unfolding e using a by linarith
  qed
qed

lemma year_estimate_neg:
  assumes "k < 0"
  shows "DayFromYear (1970 + k) \<le> 365 * k"
proof -
  have a: "4 * ((k + 1) div 4) \<le> k + 1" "k + 69 < 100 * ((k + 69) div 100) + 100"
      "400 * ((k + 369) div 400) \<le> k + 369"
    by simp_all
  have e: "DayFromYear (1970 + k) = 365 * k + (k + 1) div 4 - (k + 69) div 100 + (k + 369) div 400"
    by (simp add: DayFromYear_def add.commute)
  consider "k \<le> - 7" | "k = - 6" | "k = - 5" | "k = - 4" | "k = - 3" | "k = - 2" | "k = - 1"
    using assms by linarith
  then show ?thesis
  proof cases
    case 1
    then show ?thesis unfolding e using a by linarith
  qed (simp_all add: DayFromYear_def)
qed

text \<open>\<open>YearFromTime t\<close> is the largest year that starts at or before \<open>t\<close>.\<close>

lemma YearFromTime_spec:
  "DayFromYear (YearFromTime t) \<le> Day t \<and> Day t < DayFromYear (YearFromTime t + 1)"
proof -
  define d where "d = Day t"
  define y0 where "y0 = 1970 + (if 0 \<le> d then d div 366 else d div 365)"
  have "DayFromYear y0 \<le> d"
  proof (cases "0 \<le> d")
    case True
    then have "0 \<le> d div 366" by (simp add: pos_imp_zdiv_nonneg_iff)
    from year_estimate_nonneg[OF this] have "DayFromYear (1970 + d div 366) \<le> 366 * (d div 366)" .
    also have "\<dots> \<le> d" by simp
    finally show ?thesis using True by (simp add: y0_def)
  next
    case False
    then have "d div 365 < 0" by (simp add: div_neg_pos_less0)
    from year_estimate_neg[OF this] have "DayFromYear (1970 + d div 365) \<le> 365 * (d div 365)" .
    also have "\<dots> \<le> d" by simp
    finally show ?thesis using False by (simp add: y0_def)
  qed
  from year_search_spec[OF this] show ?thesis
    unfolding YearFromTime_def Let_def d_def[symmetric] y0_def .
qed

lemma div_succ:
  fixes a m :: int
  assumes "0 < m"
  shows "(a + 1) div m = a div m + (if (a + 1) mod m = 0 then 1 else 0)"
proof (cases "a mod m = m - 1")
  case True
  have "a = m * (a div m) + (m - 1)"
    using mult_div_mod_eq[of m a] unfolding True by simp
  then have "a + 1 = m * (a div m) + m" by linarith
  then have "a + 1 = m * (a div m + 1) + 0" by (simp add: algebra_simps)
  then have "(a + 1) div m = a div m + 1" "(a + 1) mod m = 0"
    using assms int_div_pos_eq[of "a + 1" m "a div m + 1" 0] int_mod_pos_eq[of "a + 1" m "a div m + 1" 0]
    by simp_all
  then show ?thesis by simp
next
  case False
  have r: "0 \<le> a mod m" "a mod m < m" using assms by simp_all
  then have r1: "0 \<le> a mod m + 1" "a mod m + 1 < m" using False by linarith+
  have "a + 1 = m * (a div m) + (a mod m + 1)"
    using mult_div_mod_eq[of m a] by simp
  then have "(a + 1) div m = a div m" "(a + 1) mod m = a mod m + 1"
    using r1 int_div_pos_eq[of "a + 1" m "a div m" "a mod m + 1"]
      int_mod_pos_eq[of "a + 1" m "a div m" "a mod m + 1"]
    by simp_all
  then show ?thesis using r by simp
qed

lemma DayFromYear_Suc: "DayFromYear (y + 1) = DayFromYear y + DaysInYear y"
proof -
  have m4: "(y - 1968) mod 4 = y mod 4"
    using mod_mult_self2[of y 4 "- 492"] by simp
  have m100: "(y - 1900) mod 100 = y mod 100"
    using mod_mult_self2[of y 100 "- 19"] by simp
  have m400: "(y - 1600) mod 400 = y mod 400"
    using mod_mult_self2[of y 400 "- 4"] by simp
  have d4: "(y - 1968) div 4 = (y - 1969) div 4 + (if y mod 4 = 0 then 1 else 0)"
    using div_succ[of 4 "y - 1969"] m4 by simp
  have d100: "(y - 1900) div 100 = (y - 1901) div 100 + (if y mod 100 = 0 then 1 else 0)"
    using div_succ[of 100 "y - 1901"] m100 by simp
  have d400: "(y - 1600) div 400 = (y - 1601) div 400 + (if y mod 400 = 0 then 1 else 0)"
    using div_succ[of 400 "y - 1601"] m400 by simp
  have i1: "y mod 100 = 0 \<Longrightarrow> y mod 4 = 0"
  proof -
    assume "y mod 100 = 0"
    then have "100 dvd y" by (simp add: mod_eq_0_iff_dvd)
    moreover have "(4::int) dvd 100" by simp
    ultimately have "4 dvd y" by (rule dvd_trans[rotated])
    then show ?thesis by (simp add: mod_eq_0_iff_dvd)
  qed
  have i2: "y mod 400 = 0 \<Longrightarrow> y mod 100 = 0"
  proof -
    assume "y mod 400 = 0"
    then have "400 dvd y" by (simp add: mod_eq_0_iff_dvd)
    moreover have "(100::int) dvd 400" by simp
    ultimately have "100 dvd y" by (rule dvd_trans[rotated])
    then show ?thesis by (simp add: mod_eq_0_iff_dvd)
  qed
  have e: "DayFromYear (y + 1) =
      365 * (y - 1969) + (y - 1968) div 4 - (y - 1900) div 100 + (y - 1600) div 400"
    by (simp add: DayFromYear_def)
  show ?thesis
    unfolding e d4 d100 d400 unfolding DayFromYear_def DaysInYear_def
    using i1 i2 by (simp del: div_mult_self1 div_mult_self2 div_mult_self3 div_mult_self4)
qed

lemma DayWithinYear_range: "0 \<le> DayWithinYear t \<and> DayWithinYear t < DaysInYear (YearFromTime t)"
  using YearFromTime_spec[of t] DayFromYear_Suc[of "YearFromTime t"]
  by (simp add: DayWithinYear_def)

lemma ilog2_pow2: "ilog2 (2 ^ n) = int n"
proof (induction n)
  case 0
  show ?case by (simp add: ilog2.simps)
next
  case (Suc n)
  have "(1::int) \<le> 2 ^ n" by (rule one_le_power) simp
  moreover have "(2::int) ^ Suc n = 2 * 2 ^ n" by simp
  ultimately have "\<not> (2::int) ^ Suc n < 2" by linarith
  then have "ilog2 (2 ^ Suc n) = 1 + ilog2 (2 ^ Suc n div 2)"
    by (subst ilog2.simps) (simp only: if_False)
  then show ?case using Suc by simp
qed

lemma expo_pow2: "expo (2 ^ n) = int n" "expo (- (2 ^ n)) = int n"
proof -
  have "\<lfloor>(2::real) ^ n\<rfloor> = 2 ^ n"
    by (metis floor_of_int of_int_numeral of_int_power)
  then show "expo (2 ^ n) = int n" "expo (- (2 ^ n)) = int n"
    by (simp_all add: expo_def ilog2_pow2)
qed

lemma round_even_int: "round_even (of_int n) = n"
  by (simp add: round_even_def)

lemma fl_pow2:
  assumes "52 \<le> n"
  shows "fl (2 ^ n) = (if 1024 \<le> n then PInf else Fin (2 ^ n))"
    and "fl (- (2 ^ n)) = (if 1024 \<le> n then NInf else Fin (- (2 ^ n)))"
proof -
  have u: "(2::real) powi (max (int n) (- 1022) - 52) = 2 ^ (n - 52)"
    using assms by (simp add: power_int_def nat_diff_distrib' max_def)
  have q: "(2::real) ^ n / 2 ^ (n - 52) = of_int (2 ^ 52)"
    using assms by (simp add: power_diff)
  have r: "round_even (2 ^ n / 2 ^ (n - 52)) = 2 ^ 52" "round_even (- (2 ^ n) / 2 ^ (n - 52)) = - (2 ^ 52)"
    using round_even_int[of "2 ^ 52"] round_even_int[of "- (2 ^ 52)"] q by simp_all
  have "(2::real) ^ 52 * 2 ^ (n - 52) = 2 ^ (52 + (n - 52))"
    by (simp only: power_add)
  then have m: "(2::real) ^ 52 * 2 ^ (n - 52) = 2 ^ n"
    using assms by simp
  have c: "((2::real) ^ 1024 \<le> 2 ^ n) = (1024 \<le> n)"
    by (rule power_increasing_iff) simp
  have p: "0 < (2::real) ^ n" "0 < (2::real) ^ 1024"
    by simp_all
  have d: "\<not> (2::real) ^ n \<le> - (2 ^ 1024)" "\<not> (2::real) ^ 1024 \<le> - (2 ^ n)"
    using p by linarith+
  show "fl (2 ^ n) = (if 1024 \<le> n then PInf else Fin (2 ^ n))"
    unfolding fl_def expo_pow2 u Let_def r using m c d by simp
  show "fl (- (2 ^ n)) = (if 1024 \<le> n then NInf else Fin (- (2 ^ n)))"
    unfolding fl_def expo_pow2 u Let_def r using m c d by simp
qed

lemma fl_huge:
  "fl (2 ^ 1023) = Fin (2 ^ 1023)" "fl (- (2 ^ 1023)) = Fin (- (2 ^ 1023))"
  "fl (2 ^ 1023 + 2 ^ 1023) = PInf" "fl (- (2 ^ 1023) - 2 ^ 1023) = NInf"
proof -
  have a: "(2::real) ^ 1023 + 2 ^ 1023 = 2 ^ 1024" "- ((2::real) ^ 1023) - 2 ^ 1023 = - (2 ^ 1024)"
    by simp_all
  show "fl (2 ^ 1023) = Fin (2 ^ 1023)" "fl (- (2 ^ 1023)) = Fin (- (2 ^ 1023))"
    using fl_pow2[of 1023] by simp_all
  show "fl (2 ^ 1023 + 2 ^ 1023) = PInf" "fl (- (2 ^ 1023) - 2 ^ 1023) = NInf"
    unfolding a using fl_pow2[of 1024] by simp_all
qed

lemmas fl_huge_simps = fl_huge[simplified]

lemma rows_overflow_sales: "rows (aggregate env_utc overflow_sales) = [
   \<lparr>date = Fin 0, Row.product = VStr ''A'', units = Fin 1, unit_price = Fin 1, Row.sales = Fin (2 ^ 1023)\<rparr>,
   \<lparr>date = Fin 1, Row.product = VStr ''A'', units = Fin 1, unit_price = Fin 1, Row.sales = Fin (2 ^ 1023)\<rparr>,
   \<lparr>date = Fin 2678400000, Row.product = VStr ''B'', units = Fin 1, unit_price = Fin 1, Row.sales = Fin (- (2 ^ 1023))\<rparr>,
   \<lparr>date = Fin 2678400001, Row.product = VStr ''B'', units = Fin 1, unit_price = Fin 1, Row.sales = Fin (- (2 ^ 1023))\<rparr>]"
  by (simp add: rows_aggregate rowsUnsorted_def overflow_sales_def to_row_sale sort_simps)

lemma sum_rows_overflow_sales:
  "sum_num (map Row.sales (rows (aggregate env_utc overflow_sales))) = PInf"
  unfolding rows_overflow_sales by (simp add: sum_num_def fl_huge_simps)

lemma totals_overflow_sales:
  "map total_sales (productTotalsArr (aggregate env_utc overflow_sales)) = [PInf, NInf]"
  unfolding total_sales_arr rows_overflow_sales
  by (simp add: total_simps fl_huge_simps Array_sort_def fsub_def is_pos_def)

lemma monthly_overflow_sales:
  "map MonthlyRow.sales (monthly (aggregate env_utc overflow_sales)) = [PInf, NInf]"
  unfolding map_sales_monthly rows_overflow_sales
  by (simp add: monthlyMap_def add_month_def Map_get_def k1 k1' k2 k2' Let_def fl_huge_simps
      Array_sort_def cmp_key_def localeCompare_def is_pos_def)

lemma totals_nan_month:
  "map total_sales (productTotalsArr (aggregate env_utc nan_month)) = [Fin 5]"
  unfolding total_sales_arr rows_nan rowsU_nan
  by (simp add: total_simps fl_int_simps Array_sort_def)

lemma sum_rows_nan_month:
  "sum_num (map Row.sales (rows (aggregate env_utc nan_month))) = NaN"
  unfolding rows_nan rowsU_nan by (simp add: sum_num_def fl_int_simps)







section \<open>The sales cell\<close>

lemma nullish_assoc: "nullish (nullish a b) c = nullish a (nullish b c)"
  by (simp add: nullish_def)

lemma first_cell_Nil: "first_cell r [] = None"
  by (simp add: first_cell_def)

lemma first_cell_Cons:
  "first_cell r (k # ks) =
     (if r k \<noteq> None \<and> r k \<noteq> Some VUndefined \<and> r k \<noteq> Some VNull then r k else first_cell r ks)"
  by (simp add: first_cell_def)

lemma first_cell_present:
  "first_cell r ks = Some v \<Longrightarrow> v \<noteq> VUndefined \<and> v \<noteq> VNull"
  by (induction ks) (auto simp: first_cell_Nil first_cell_Cons split: if_splits)

lemma nullish_get_prop:
  "nullish (get_prop r k) b =
     (if r k \<noteq> None \<and> r k \<noteq> Some VUndefined \<and> r k \<noteq> Some VNull then the (r k) else b)"
  by (auto simp: nullish_def get_prop_def split: option.splits)

lemma rawSales_first_cell:
  "rawSales r =
     (case first_cell r [''sales'', ''revenue'', ''ciro'', ''Sales'', ''Revenue''] of
        None \<Rightarrow> get_prop r ''Revenue''
      | Some v \<Rightarrow> v)"
proof -
  have "rawSales r =
      nullish (get_prop r ''sales'') (nullish (get_prop r ''revenue'') (nullish (get_prop r ''ciro'')
        (nullish (get_prop r ''Sales'') (get_prop r ''Revenue''))))"
    unfolding rawSales_def nullish_assoc ..
  also have "\<dots> = (case first_cell r [''sales'', ''revenue'', ''ciro'', ''Sales'', ''Revenue''] of
        None \<Rightarrow> get_prop r ''Revenue''
      | Some v \<Rightarrow> v)"
    unfolding nullish_get_prop first_cell_Cons first_cell_Nil
    by (auto simp: get_prop_def split: option.splits)
  finally show ?thesis .
qed

lemma rawSales_absent:
  assumes "first_cell r [''sales'', ''revenue'', ''ciro'', ''Sales'', ''Revenue''] = None"
  shows "rawSales r = VUndefined \<or> rawSales r = VNull"
proof -
  have "r ''Revenue'' = None \<or> r ''Revenue'' = Some VUndefined \<or> r ''Revenue'' = Some VNull"
    using assms unfolding first_cell_Cons first_cell_Nil by (auto split: if_splits)
  then show ?thesis
    unfolding rawSales_first_cell assms by (auto simp: get_prop_def)
qed

lemma numericSales_cell:
  "numericSales r =
     (case first_cell r [''sales'', ''revenue'', ''ciro'', ''Sales'', ''Revenue''] of
        Some (VBool b) \<Rightarrow> if b then Fin 1 else Fin 0
      | Some (VNum n) \<Rightarrow>
          if n = NaN then fmul (ToNumber (unitsVal r)) (ToNumber (unitPriceVal r)) else n
      | Some (VStr s) \<Rightarrow>
          if s = [] \<or> StringToNumber s = NaN
          then fmul (ToNumber (unitsVal r)) (ToNumber (unitPriceVal r)) else StringToNumber s
      | Some (VDate i t) \<Rightarrow>
          if t = NaN then fmul (ToNumber (unitsVal r)) (ToNumber (unitPriceVal r)) else t
      | _ \<Rightarrow> fmul (ToNumber (unitsVal r)) (ToNumber (unitPriceVal r)))"
proof (cases "first_cell r [''sales'', ''revenue'', ''ciro'', ''Sales'', ''Revenue'']")
  case None
  from rawSales_absent[OF None] show ?thesis
    unfolding None by (auto simp: numericSales_def)
next
  case (Some v)
  have v: "rawSales r = v" unfolding rawSales_first_cell Some by simp
  from first_cell_present[OF Some] show ?thesis
    unfolding Some numericSales_def v isNaN_def by (cases v) auto
qed

lemma s2n_blank: "trim s = [] \<Longrightarrow> StringToNumber s = Fin 0"
  by (simp add: StringToNumber_def)


lemma chain_first_cell:
  "first_cell r (ks @ [k]) = Some v \<Longrightarrow>
     foldr (\<lambda>k. nullish (get_prop r k)) ks (get_prop r k) = v"
proof (induction ks)
  case Nil
  then show ?case
    by (auto simp: first_cell_Cons first_cell_Nil get_prop_def split: if_splits)
next
  case (Cons a ks)
  show ?case
  proof (cases "r a \<noteq> None \<and> r a \<noteq> Some VUndefined \<and> r a \<noteq> Some VNull")
    case True
    then have "first_cell r ((a # ks) @ [k]) = r a"
      by (simp add: first_cell_Cons)
    with Cons.prems have "r a = Some v" by simp
    then have "nullish (get_prop r a) b = v" for b
      using True by (auto simp: nullish_def get_prop_def)
    then show ?thesis by simp
  next
    case False
    then have "first_cell r ((a # ks) @ [k]) = first_cell r (ks @ [k])"
      by (auto simp: first_cell_Cons)
    with Cons.prems have "first_cell r (ks @ [k]) = Some v" by simp
    moreover have "nullish (get_prop r a) b = b" for b
      using False by (auto simp: nullish_def get_prop_def split: option.splits)
    ultimately show ?thesis using Cons.IH by simp
  qed
qed

lemma unitsVal_first_cell:
  assumes "first_cell r [''units'', ''quantity'', ''adet'', ''Units'', ''Quantity''] = Some v"
  shows "unitsVal r = v"
proof -
  have "unitsVal r =
      foldr (\<lambda>k. nullish (get_prop r k)) [''units'', ''quantity'', ''adet'', ''Units'']
        (get_prop r ''Quantity'')"
    unfolding unitsVal_def nullish_assoc by simp
  then show ?thesis
    using chain_first_cell[of r "[''units'', ''quantity'', ''adet'', ''Units'']" "''Quantity''" v] assms
    by simp
qed

lemma unitPriceVal_first_cell:
  assumes "first_cell r [''unit_price'', ''price'', ''Unit_Price'', ''Price''] = Some v"
  shows "unitPriceVal r = v"
proof -
  have "unitPriceVal r =
      foldr (\<lambda>k. nullish (get_prop r k)) [''unit_price'', ''price'', ''Unit_Price'']
        (get_prop r ''Price'')"
    unfolding unitPriceVal_def nullish_assoc by simp
  then show ?thesis
    using chain_first_cell[of r "[''unit_price'', ''price'', ''Unit_Price'']" "''Price''" v] assms
    by simp
qed

lemma to_row_fields:
  assumes "to_row env r = Some row"
  shows "Row.sales row = numericSales r \<and> units row = ToNumber (unitsVal r) \<and>
         unit_price row = ToNumber (unitPriceVal r)"
  using assms by (auto simp: to_row_def Let_def split: option.splits if_splits)

lemma s2n_samples:
  "StringToNumber ''12.5'' = Fin 12.5"
  "StringToNumber ''abc'' = NaN"
  "StringToNumber '' 1e3 '' = Fin 1000"
  "StringToNumber '' '' = Fin 0"
  "StringToNumber [CHR 0xC2, CHR 0xA0] = Fin 0"
proof -
  show "StringToNumber ''12.5'' = Fin 12.5"
    apply (simp add: s2n_simps)
    apply (simp add: fl_simps)
    done
qed (simp_all add: s2n_simps fl_int_simps)

section \<open>The claims\<close>

text \<open>
  Claim C7 (forecast baselines).  \<open>naive\<close> is the sales of the last bucket of the monthly
  output, or 0 when there is no bucket; \<open>ma\<close> is the arithmetic mean (the left-to-right
  sum in double arithmetic, divided by the count) of the sales of the last \<open>min(3, N)\<close>
  of the \<open>N\<close> buckets, or 0 when \<open>N = 0\<close>.
\<close>

theorem baselines:
  "naive (aggregate env data) =
     (if monthly (aggregate env data) = [] then Fin 0
      else MonthlyRow.sales (last (monthly (aggregate env data)))) \<and>
   ma (aggregate env data) =
     (if monthly (aggregate env data) = [] then Fin 0
      else mean (map MonthlyRow.sales
             (drop (length (monthly (aggregate env data)) - min 3 (length (monthly (aggregate env data))))
                (monthly (aggregate env data)))))"
proof -
  define ms where "ms = monthly (aggregate env data)"
  have n: "naive (aggregate env data) = (if ms = [] then Fin 0 else MonthlyRow.sales (last ms))"
    unfolding naive_aggregate ms_def[symmetric]
    by (simp add: Let_def last_conv_nth)
  have k: "length (drop (length ms - min 3 (length ms)) ms) = min 3 (length ms)"
    by simp
  have m: "ma (aggregate env data) =
      (if ms = [] then Fin 0 else mean (map MonthlyRow.sales (drop (length ms - min 3 (length ms)) ms)))"
    unfolding ma_aggregate ms_def[symmetric] mean_def sum_num_def
    by (simp add: Let_def drop_map k del: length_drop)
  show ?thesis
    using n m unfolding ms_def by simp
qed

theorem baselines_witness:
  "naive (aggregate env_utc three_months) = Fin 90 \<and>
   ma (aggregate env_utc three_months) = Fin (7975124340135253 / 70368744177664)"
proof -
  have s: "fl (340 / 3) = Fin (7975124340135253 / 70368744177664)"
    by (simp add: fl_def expo_def ilog2.simps round_even_def Let_def)
  show ?thesis
    using baselines[of env_utc three_months]
    by (simp add: monthly3 mean_def sum_num_def fl_int_simps s)
qed

text \<open>
  Claim C3 (percentage change), amended.  The first bucket of the monthly output has no
  \<open>pct_change\<close>; every bucket at an index \<open>i \<ge> 1\<close> has \<open>pct_change\<close> equal to
  \<open>(sales[i] - sales[i-1]) / sales[i-1] * 100\<close> in double arithmetic, except that it is 0
  when \<open>sales[i-1]\<close> is 0 or \<open>NaN\<close>.
\<close>

theorem pct_change_monthly:
  "(monthly (aggregate env data) \<noteq> [] \<longrightarrow> pct_change (monthly (aggregate env data) ! 0) = None) \<and>
   (\<forall>i. 1 \<le> i \<and> i < length (monthly (aggregate env data)) \<longrightarrow>
      pct_change (monthly (aggregate env data) ! i) =
        Some (pct_of (MonthlyRow.sales (monthly (aggregate env data) ! (i - 1)))
                (MonthlyRow.sales (monthly (aggregate env data) ! i))))"
proof -
  define ms where "ms = Array_sort cmp_key (map snd (monthlyMap env (rows (aggregate env data))))"
  have m: "monthly (aggregate env data) = pct_changes ms"
    unfolding ms_def by (rule monthly_aggregate)
  have none: "pct_change b = None" if "b \<in> set ms" for b
  proof -
    from that obtain e where "e \<in> set (monthlyMap env (rows (aggregate env data)))" "b = snd e"
      unfolding ms_def set_Array_sort by auto
    then show ?thesis using monthlyMap_ok[of env "rows (aggregate env data)"] by (auto simp: bucket_ok_def)
  qed
  have s: "map MonthlyRow.sales (pct_changes ms) = map MonthlyRow.sales ms"
    by (rule map_pct_changes) simp
  have sn: "MonthlyRow.sales (pct_changes ms ! j) = MonthlyRow.sales (ms ! j)" if "j < length ms" for j
    using that by (metis s length_pct_changes nth_map)
  have first: "pct_change (pct_changes ms ! 0) = None" if "ms \<noteq> []"
    using that none[of "ms ! 0"] by (simp add: nth_pct_changes)
  have rest: "pct_change (pct_changes ms ! i) =
      Some (pct_of (MonthlyRow.sales (pct_changes ms ! (i - 1))) (MonthlyRow.sales (pct_changes ms ! i)))"
    if "1 \<le> i" "i < length ms" for i
    using that by (simp add: nth_pct_changes sn)
  have ne: "ms \<noteq> []" if "pct_changes ms \<noteq> []"
    using that length_pct_changes[of ms] by auto
  show ?thesis
    unfolding m using first rest ne by (simp add: length_pct_changes)
qed

theorem pct_change_monthly_witness:
  "pct_change (monthly (aggregate env_utc three_months) ! 0) = None \<and>
   pct_change (monthly (aggregate env_utc three_months) ! 1) = Some (Fin 50) \<and>
   pct_change (monthly (aggregate env_utc three_months) ! 2) = Some (Fin (- 40)) \<and>
   pct_change (monthly (aggregate env_utc nan_month) ! 1) = Some (Fin 0)"
  using pct_change_monthly[of env_utc three_months] pct_change_monthly[of env_utc nan_month]
  by (simp add: monthly3 monthly_nan)

theorem pct_change_nan_counterexample:
  "MonthlyRow.sales (monthly (aggregate env_utc nan_month) ! 0) \<noteq> Fin 0 \<and>
   pct_change (monthly (aggregate env_utc nan_month) ! 1) \<noteq>
     Some (fmul (fdiv (fsub (MonthlyRow.sales (monthly (aggregate env_utc nan_month) ! 1))
                         (MonthlyRow.sales (monthly (aggregate env_utc nan_month) ! 0)))
                   (MonthlyRow.sales (monthly (aggregate env_utc nan_month) ! 0))) (Fin 100))"
  by (simp add: monthly_nan fsub_def)

text \<open>
  Claim C2 (row validation), amended.  A record becomes a row of the \<open>rows\<close> output if
  and only if its resolved date gives a valid date and its resolved units, unit price and
  sales are all different from \<open>NaN\<close> (an infinite value passes); the rows are
  those of the valid records, each with the resolved fields, and nothing else is
  returned for the others.
\<close>

theorem row_validation:
  "(to_row env r \<noteq> None) = valid_record env r \<and>
   (valid_record env r \<longrightarrow>
      to_row env r = Some \<lparr>date = the (toDate env (dateRaw r)), Row.product = product_of r,
                             units = ToNumber (unitsVal r), unit_price = ToNumber (unitPriceVal r),
                             Row.sales = numericSales r\<rparr>) \<and>
   mset (rows (aggregate env data)) =
     mset (map (\<lambda>r. the (to_row env r)) (filter (valid_record env) data))"
proof -
  have a: "(to_row env r \<noteq> None) = valid_record env r" for r
    by (auto simp: to_row_def valid_record_def Number_isNaN_def Let_def split: option.splits)
  have b: "to_row env r = Some \<lparr>date = the (toDate env (dateRaw r)), Row.product = product_of r,
                             units = ToNumber (unitsVal r), unit_price = ToNumber (unitPriceVal r),
                             Row.sales = numericSales r\<rparr>" if "valid_record env r"
    using that by (auto simp: to_row_def valid_record_def Number_isNaN_def Let_def split: option.splits)
  have "filter (\<lambda>x. x \<noteq> None) (map (to_row env) data) =
        map (to_row env) (filter (valid_record env) data)"
    unfolding filter_map comp_def a ..
  then have "rowsUnsorted env data = map (\<lambda>r. the (to_row env r)) (filter (valid_record env) data)"
    unfolding rowsUnsorted_def by (simp add: comp_def)
  then have c: "mset (rows (aggregate env data)) =
     mset (map (\<lambda>r. the (to_row env r)) (filter (valid_record env) data))"
    by (simp add: rows_aggregate mset_Array_sort)
  show ?thesis using a b c by blast
qed

theorem row_validation_witness:
  "valid_record env_utc rec_inf_units \<and>
   rows (aggregate env_utc [rec_inf_units, rec_no_date]) =
     [\<lparr>date = Fin 0, Row.product = VStr ''A'', units = PInf, unit_price = Fin 1, Row.sales = PInf\<rparr>]"
proof -
  note t = row_validation[of env_utc rec_inf_units "[rec_inf_units, rec_no_date]"]
  note t2 = row_validation[of env_utc rec_no_date "[]"]
  have v1: "valid_record env_utc rec_inf_units"
    using t by (simp add: to_row_inf_units)
  have v2: "\<not> valid_record env_utc rec_no_date"
    using t2 by (simp add: to_row_no_date)
  have "mset (rows (aggregate env_utc [rec_inf_units, rec_no_date])) =
        {#the (to_row env_utc rec_inf_units)#}"
    using t v1 v2 by simp
  then show ?thesis
    using v1 by (simp add: to_row_inf_units)
qed

theorem row_not_finite_counterexample:
  "rows (aggregate env_utc [rec_inf_units]) =
     [\<lparr>date = Fin 0, Row.product = VStr ''A'', units = PInf, unit_price = Fin 1, Row.sales = PInf\<rparr>]"
  by (simp add: rows_aggregate rowsUnsorted_def to_row_inf_units Array_sort_def)

text \<open>
  Claim C4 (sales fallback), amended.  The sales cell of a record is the value under the
  first of the keys \<open>sales\<close>, \<open>revenue\<close>, \<open>ciro\<close>, \<open>Sales\<close>, \<open>Revenue\<close> that is neither
  absent nor \<open>null\<close>.  The resolved sales are \<open>units * unit_price\<close> exactly when there is
  no such cell, or the cell is the empty string, or its conversion by \<open>Number\<close> is \<open>NaN\<close>
  (a string that is no numeric literal once the white space at its ends is stripped, the
  number \<open>NaN\<close>, an invalid date); otherwise they are the conversion of the cell: the
  number itself, the value of the string (0 for a string of white space only), 1 or 0 for
  \<open>true\<close> or \<open>false\<close>, the time value of a date.  An explicit \<open>"0"\<close> gives 0 whatever the
  units and the price.  The units and the price are read in the same way from their own
  keys, and a row carries the resolved values.
\<close>

theorem sales_fallback:
  "numericSales r =
     (case first_cell r [''sales'', ''revenue'', ''ciro'', ''Sales'', ''Revenue''] of
        Some (VBool b) \<Rightarrow> if b then Fin 1 else Fin 0
      | Some (VNum n) \<Rightarrow>
          if n = NaN then fmul (ToNumber (unitsVal r)) (ToNumber (unitPriceVal r)) else n
      | Some (VStr s) \<Rightarrow>
          if s = [] \<or> StringToNumber s = NaN
          then fmul (ToNumber (unitsVal r)) (ToNumber (unitPriceVal r)) else StringToNumber s
      | Some (VDate i t) \<Rightarrow>
          if t = NaN then fmul (ToNumber (unitsVal r)) (ToNumber (unitPriceVal r)) else t
      | _ \<Rightarrow> fmul (ToNumber (unitsVal r)) (ToNumber (unitPriceVal r))) \<and>
   (\<forall>v. first_cell r [''units'', ''quantity'', ''adet'', ''Units'', ''Quantity''] = Some v \<longrightarrow>
        unitsVal r = v) \<and>
   (\<forall>v. first_cell r [''unit_price'', ''price'', ''Unit_Price'', ''Price''] = Some v \<longrightarrow>
        unitPriceVal r = v) \<and>
   (\<forall>s. trim s = [] \<longrightarrow> StringToNumber s = Fin 0) \<and>
   (first_cell r [''sales'', ''revenue'', ''ciro'', ''Sales'', ''Revenue''] = Some (VStr ''0'') \<longrightarrow>
      numericSales r = Fin 0) \<and>
   (\<forall>row. to_row env r = Some row \<longrightarrow>
      Row.sales row = numericSales r \<and> units row = ToNumber (unitsVal r) \<and>
      unit_price row = ToNumber (unitPriceVal r))"
proof -
  have z: "numericSales r = Fin 0"
    if "first_cell r [''sales'', ''revenue'', ''ciro'', ''Sales'', ''Revenue''] = Some (VStr ''0'')"
    unfolding numericSales_cell[of r] that by (simp add: s2n_zero)
  show ?thesis
    using numericSales_cell[of r] unitsVal_first_cell[of r] unitPriceVal_first_cell[of r]
      s2n_blank z to_row_fields[of env r]
    by blast
qed


theorem sales_fallback_witness:
  "numericSales (rec_with [(''sales'', VStr ''0'')]) = Fin 0 \<and>
   numericSales (rec_with []) = Fin 6 \<and>
   numericSales (rec_with [(''sales'', VNull), (''revenue'', VStr ''12.5'')]) = Fin 12.5 \<and>
   numericSales (rec_with [(''Revenue'', VNum (Fin 7))]) = Fin 7 \<and>
   numericSales (rec_with [(''sales'', VStr ''abc''), (''revenue'', VNum (Fin 7))]) = Fin 6 \<and>
   numericSales (rec_with [(''sales'', VStr [])]) = Fin 6 \<and>
   numericSales (rec_with [(''ciro'', VStr '' 1e3 '')]) = Fin 1000 \<and>
   to_row env_utc (rec_with [(''sales'', VStr ''0'')]) =
     Some \<lparr>date = Fin 0, Row.product = VStr ''A'', units = Fin 3, unit_price = Fin 2, Row.sales = Fin 0\<rparr>"
proof -
  note c = first_cell_def rec_with_def
  have u: "unitsVal (rec_with cs) = VNum (Fin 3)" "unitPriceVal (rec_with cs) = VNum (Fin 2)"
    if "map_of cs ''units'' = None" "map_of cs ''unit_price'' = None" "map_of cs ''price'' = None" for cs
  proof -
    have "first_cell (rec_with cs) [''units'', ''quantity'', ''adet'', ''Units'', ''Quantity''] =
        Some (VNum (Fin 3))"
      using that by (simp add: c map_add_def)
    then show "unitsVal (rec_with cs) = VNum (Fin 3)"
      using sales_fallback[of "rec_with cs" env_utc] by blast
    have "first_cell (rec_with cs) [''unit_price'', ''price'', ''Unit_Price'', ''Price''] =
        Some (VNum (Fin 2))"
      using that by (simp add: c map_add_def)
    then show "unitPriceVal (rec_with cs) = VNum (Fin 2)"
      using sales_fallback[of "rec_with cs" env_utc] by blast
  qed
  have n: "numericSales r =
     (case first_cell r [''sales'', ''revenue'', ''ciro'', ''Sales'', ''Revenue''] of
        Some (VBool b) \<Rightarrow> if b then Fin 1 else Fin 0
      | Some (VNum n) \<Rightarrow>
          if n = NaN then fmul (ToNumber (unitsVal r)) (ToNumber (unitPriceVal r)) else n
      | Some (VStr s) \<Rightarrow>
          if s = [] \<or> StringToNumber s = NaN
          then fmul (ToNumber (unitsVal r)) (ToNumber (unitPriceVal r)) else StringToNumber s
      | Some (VDate i t) \<Rightarrow>
          if t = NaN then fmul (ToNumber (unitsVal r)) (ToNumber (unitPriceVal r)) else t
      | _ \<Rightarrow> fmul (ToNumber (unitsVal r)) (ToNumber (unitPriceVal r)))" for r
    using sales_fallback[of r env_utc] by blast
  have f:
    "first_cell (rec_with [(''sales'', VStr ''0'')]) [''sales'', ''revenue'', ''ciro'', ''Sales'', ''Revenue''] =
       Some (VStr ''0'')"
    "first_cell (rec_with []) [''sales'', ''revenue'', ''ciro'', ''Sales'', ''Revenue''] = None"
    "first_cell (rec_with [(''sales'', VNull), (''revenue'', VStr ''12.5'')])
       [''sales'', ''revenue'', ''ciro'', ''Sales'', ''Revenue''] = Some (VStr ''12.5'')"
    "first_cell (rec_with [(''Revenue'', VNum (Fin 7))]) [''sales'', ''revenue'', ''ciro'', ''Sales'', ''Revenue''] =
       Some (VNum (Fin 7))"
    "first_cell (rec_with [(''sales'', VStr ''abc''), (''revenue'', VNum (Fin 7))])
       [''sales'', ''revenue'', ''ciro'', ''Sales'', ''Revenue''] = Some (VStr ''abc'')"
    "first_cell (rec_with [(''sales'', VStr [])]) [''sales'', ''revenue'', ''ciro'', ''Sales'', ''Revenue''] =
       Some (VStr [])"
    "first_cell (rec_with [(''ciro'', VStr '' 1e3 '')]) [''sales'', ''revenue'', ''ciro'', ''Sales'', ''Revenue''] =
       Some (VStr '' 1e3 '')"
    by (simp_all add: c)
  have 1: "numericSales (rec_with [(''sales'', VStr ''0'')]) = Fin 0"
    using sales_fallback[of "rec_with [(''sales'', VStr ''0'')]" env_utc] f(1) by blast
  have 2: "numericSales (rec_with []) = Fin 6"
    unfolding n f by (simp add: u fl_int_simps)
  have 3: "numericSales (rec_with [(''sales'', VNull), (''revenue'', VStr ''12.5'')]) = Fin 12.5"
    unfolding n f by (simp add: s2n_samples)
  have 4: "numericSales (rec_with [(''Revenue'', VNum (Fin 7))]) = Fin 7"
    unfolding n f by simp
  have 5: "numericSales (rec_with [(''sales'', VStr ''abc''), (''revenue'', VNum (Fin 7))]) = Fin 6"
    unfolding n f by (simp add: u s2n_samples fl_int_simps)
  have 6: "numericSales (rec_with [(''sales'', VStr [])]) = Fin 6"
    unfolding n f by (simp add: u fl_int_simps)
  have 7: "numericSales (rec_with [(''ciro'', VStr '' 1e3 '')]) = Fin 1000"
    unfolding n f by (simp add: s2n_samples)
  have d: "dateRaw (rec_with [(''sales'', VStr ''0'')]) = VNum (Fin 0)"
     "product_of (rec_with [(''sales'', VStr ''0'')]) = VStr ''A''"
    by (simp_all add: dateRaw_def product_of_def get_prop_def nullish_def rec_with_def)
  have 8: "to_row env_utc (rec_with [(''sales'', VStr ''0'')]) =
     Some \<lparr>date = Fin 0, Row.product = VStr ''A'', units = Fin 3, unit_price = Fin 2, Row.sales = Fin 0\<rparr>"
    by (simp add: to_row_def d u 1 toDate_def new_Date_def TimeClip_def getTime_def isNaN_def
        Number_isNaN_def Let_def)
  show ?thesis
    using 1 2 3 4 5 6 7 8 by blast
qed

theorem sales_not_numeric_counterexample:
  "first_cell (rec_with [(''sales'', VBool True)]) [''sales'', ''revenue'', ''ciro'', ''Sales'', ''Revenue''] =
     Some (VBool True) \<and>
   numericSales (rec_with [(''sales'', VBool True)]) = Fin 1 \<and>
   fmul (ToNumber (unitsVal (rec_with [(''sales'', VBool True)])))
        (ToNumber (unitPriceVal (rec_with [(''sales'', VBool True)]))) = Fin 6 \<and>
   numericSales (rec_with [(''sales'', VStr '' '')]) = Fin 0 \<and>
   fmul (ToNumber (unitsVal (rec_with [(''sales'', VStr '' '')])))
        (ToNumber (unitPriceVal (rec_with [(''sales'', VStr '' '')]))) = Fin 6 \<and>
   numericSales (rec_with [(''sales'', VStr [CHR 0xC2, CHR 0xA0])]) = Fin 0 \<and>
   map Row.sales (rows (aggregate env_utc
     [rec_with [(''sales'', VBool True)], rec_with [(''sales'', VStr '' '')]])) = [Fin 1, Fin 0]"
proof -
  have a: "to_row env_utc (rec_with [(''sales'', VBool True)]) =
     Some \<lparr>date = Fin 0, Row.product = VStr ''A'', units = Fin 3, unit_price = Fin 2, Row.sales = Fin 1\<rparr>"
    by (simp add: row_simps rec_with_def env_utc_def Let_def)
  have b: "to_row env_utc (rec_with [(''sales'', VStr '' '')]) =
     Some \<lparr>date = Fin 0, Row.product = VStr ''A'', units = Fin 3, unit_price = Fin 2, Row.sales = Fin 0\<rparr>"
    by (simp add: row_simps rec_with_def env_utc_def Let_def s2n_samples)
  have c: "map Row.sales (rows (aggregate env_utc
     [rec_with [(''sales'', VBool True)], rec_with [(''sales'', VStr '' '')]])) = [Fin 1, Fin 0]"
    by (simp add: rows_aggregate rowsUnsorted_def a b sort_simps)
  show ?thesis
    unfolding c
    by (simp add: first_cell_def rec_with_def numericSales_def rawSales_def unitsVal_def
        unitPriceVal_def get_prop_def nullish_def isNaN_def s2n_samples fl_int_simps)
qed

text \<open>
  Claim C8 (row ordering), amended.  The \<open>rows\<close> output is sorted ascending by the time
  value of the date, and the rows of one time value keep the relative order they have in
  the input (among the valid records); the product totals are sorted descending by
  \<open>total_sales\<close> whenever no total is \<open>NaN\<close>.
\<close>

theorem ordering:
  "sorted_wrt (\<lambda>a b. num_ge (getTime (date b)) (getTime (date a))) (rows (aggregate env data)) \<and>
   (\<forall>t. filter (\<lambda>r. date r = t) (rows (aggregate env data)) =
        filter (\<lambda>r. date r = t) (map (\<lambda>r. the (to_row env r)) (filter (valid_record env) data))) \<and>
   ((\<forall>x\<in>set (productTotalsArr (aggregate env data)). total_sales x \<noteq> NaN) \<longrightarrow>
      sorted_wrt (\<lambda>a b. num_ge (total_sales a) (total_sales b)) (productTotalsArr (aggregate env data)))"
proof -
  have a: "(to_row env r \<noteq> None) = valid_record env r" for r
    by (auto simp: to_row_def valid_record_def Number_isNaN_def Let_def split: option.splits)
  have "filter (\<lambda>x. x \<noteq> None) (map (to_row env) data) =
        map (to_row env) (filter (valid_record env) data)"
    unfolding filter_map comp_def a ..
  then have "rowsUnsorted env data = map (\<lambda>r. the (to_row env r)) (filter (valid_record env) data)"
    unfolding rowsUnsorted_def by (simp add: comp_def)
  then show ?thesis
    using rows_sorted[of env data] rows_stable[of _ env data] productTotalsArr_sorted[of env data]
    by simp
qed

theorem ordering_witness:
  "map date (rows (aggregate env_utc shuffled)) = [Fin 0, Fin 0, Fin 5, Fin 5] \<and>
   map Row.product (rows (aggregate env_utc shuffled)) = [VStr ''B'', VStr ''A'', VStr ''A'', VStr ''C''] \<and>
   map total_sales (productTotalsArr (aggregate env_utc shuffled)) = [Fin 7, Fin 4, Fin 2]"
  using ordering[of env_utc shuffled]
  by (simp add: rows_shuffled totals_shuffled)

theorem ordering_nan_counterexample:
  "map total_sales (productTotalsArr (aggregate env_utc nan_total)) = [Fin 1, NaN, Fin 2] \<and>
   \<not> num_ge (Fin 1) NaN \<and> \<not> num_ge NaN (Fin 2) \<and> \<not> num_ge (Fin 1) (Fin 2)"
  by (simp add: totals_nan_total num_ge_def)

text \<open>
  Claim C6 (monthly bucket keys), amended.  The keys of the monthly output are pairwise
  distinct and strictly increasing in the order of strings by code units; each key is the
  key of a row: the decimal digits of the full year of the row's date in the local time
  zone (four digits for the years 1000 to 9999, fewer or more outside, not padded), a
  hyphen, and the month (1 to 12) in two digits.
\<close>

theorem monthly_keys_format:
  "distinct (map key (monthly (aggregate env data))) \<and>
   sorted_wrt (<) (map key (monthly (aggregate env data))) \<and>
   (\<forall>b\<in>set (monthly (aggregate env data)).
      \<exists>r\<in>set (rows (aggregate env data)). \<exists>t::int.
        date r = Fin (of_int t) \<and>
        1 \<le> MonthFromTime (LocalTime env t) + 1 \<and> MonthFromTime (LocalTime env t) + 1 \<le> 12 \<and>
        key b = String_of (Some (YearFromTime (LocalTime env t))) @ ''-'' @
                [digit_char (nat (MonthFromTime (LocalTime env t) + 1) div 10),
                 digit_char (nat (MonthFromTime (LocalTime env t) + 1) mod 10)] \<and>
        (1000 \<le> YearFromTime (LocalTime env t) \<and> YearFromTime (LocalTime env t) \<le> 9999 \<longrightarrow>
           length (key b) = 7))"
proof -
  have d: "distinct (map key (monthly (aggregate env data)))"
    by (rule keys_distinct)
  have s: "sorted_wrt (<) (map key (monthly (aggregate env data)))"
    using keys_sorted[of env data] d by (simp add: strict_sorted_iff)
  have f: "\<exists>r\<in>set (rows (aggregate env data)). \<exists>t::int.
        date r = Fin (of_int t) \<and>
        1 \<le> MonthFromTime (LocalTime env t) + 1 \<and> MonthFromTime (LocalTime env t) + 1 \<le> 12 \<and>
        key b = String_of (Some (YearFromTime (LocalTime env t))) @ ''-'' @
                [digit_char (nat (MonthFromTime (LocalTime env t) + 1) div 10),
                 digit_char (nat (MonthFromTime (LocalTime env t) + 1) mod 10)] \<and>
        (1000 \<le> YearFromTime (LocalTime env t) \<and> YearFromTime (LocalTime env t) \<le> 9999 \<longrightarrow>
           length (key b) = 7)"
    if b: "b \<in> set (monthly (aggregate env data))" for b
  proof -
    from keys_of_rows[OF b] obtain r where r: "r \<in> set (rows (aggregate env data))"
      and k: "key b = monthKey env (date r)" by blast
    from r have "r \<in> set (rowsUnsorted env data)"
      by (simp add: rows_aggregate set_Array_sort)
    then obtain t :: int where t: "date r = Fin (of_int t)"
      using rowsUnsorted_date by blast
    have kf: "key b = String_of (Some (YearFromTime (LocalTime env t))) @ ''-'' @
                [digit_char (nat (MonthFromTime (LocalTime env t) + 1) div 10),
                 digit_char (nat (MonthFromTime (LocalTime env t) + 1) mod 10)]"
      unfolding k t by (rule monthKey_format)
    have "length (key b) = 7"
      if "1000 \<le> YearFromTime (LocalTime env t)" "YearFromTime (LocalTime env t) \<le> 9999"
      using that length_digits_of_four[of "nat (YearFromTime (LocalTime env t))"]
      unfolding kf by (simp add: String_of_def)
    then show ?thesis
      using r t kf MonthFromTime_range[of "LocalTime env t"] by auto
  qed
  show ?thesis
    using d s f by blast
qed

theorem monthly_keys_format_witness:
  "map key (monthly (aggregate env_utc three_months)) = [''1970-01'', ''1970-02'', ''1970-03''] \<and>
   YearFromTime (LocalTime env_utc 2678400000) = 1970 \<and>
   MonthFromTime (LocalTime env_utc 2678400000) + 1 = 2"
proof -
  have y: "YearFromTime (LocalTime env_utc 2678400000) = 1970"
    by (simp add: key_simps env_utc_def Let_def)
  have m: "MonthFromTime (LocalTime env_utc 2678400000) + 1 = 2"
    by (simp add: key_simps env_utc_def Let_def)
  show ?thesis
    using monthly_keys_format[of env_utc three_months] y m
    by (simp add: monthly3)
qed

theorem year_five_digits_counterexample:
  "map key (monthly (aggregate env_utc year_10000)) = [''10000-01''] \<and>
   length ''10000-01'' \<noteq> 7"
  by (simp add: monthly_10000)

text \<open>
  Claim C1 (grand total conservation), amended.  When the sales of the rows are integers
  whose absolute values sum to at most \<open>2\<^sup>5\<^sup>3\<close>, the sum of \<open>total_sales\<close> over the
  product totals equals the sum of \<open>sales\<close> over the rows (sums in double arithmetic, from
  the left; no addition rounds then).
\<close>

theorem grand_total_conservation:
  "exact_sales (rows (aggregate env data)) \<longrightarrow>
     sum_num (map total_sales (productTotalsArr (aggregate env data))) =
     sum_num (map Row.sales (rows (aggregate env data)))"
  using totals_conserved by blast

theorem grand_total_conservation_witness:
  "exact_sales (rows (aggregate env_utc three_months)) \<and>
   sum_num (map total_sales (productTotalsArr (aggregate env_utc three_months))) = Fin 340 \<and>
   sum_num (map Row.sales (rows (aggregate env_utc three_months))) = Fin 340"
  using grand_total_conservation[of env_utc three_months] exact_three_months
  by (simp add: totals_three_months sum_num_def fl_int_simps)

theorem grand_total_counterexample:
  "map Row.sales (rows (aggregate env_utc rounding_products)) =
     [Fin 1, Fin 10000000000000000, Fin 1, Fin 1] \<and>
   map total_sales (productTotalsArr (aggregate env_utc rounding_products)) =
     [Fin 10000000000000000, Fin 2] \<and>
   sum_num (map Row.sales (rows (aggregate env_utc rounding_products))) = Fin 10000000000000000 \<and>
   sum_num (map total_sales (productTotalsArr (aggregate env_utc rounding_products))) =
     Fin 10000000000000002 \<and>
   map Row.sales (rows (aggregate env_utc nan_month)) = [PInf, NInf, Fin 5] \<and>
   map total_sales (productTotalsArr (aggregate env_utc nan_month)) = [Fin 5] \<and>
   sum_num (map Row.sales (rows (aggregate env_utc nan_month))) = NaN \<and>
   sum_num (map total_sales (productTotalsArr (aggregate env_utc nan_month))) = Fin 5 \<and>
   map Row.sales (rows (aggregate env_utc overflow_sales)) =
     [Fin (2 ^ 1023), Fin (2 ^ 1023), Fin (- (2 ^ 1023)), Fin (- (2 ^ 1023))] \<and>
   map total_sales (productTotalsArr (aggregate env_utc overflow_sales)) = [PInf, NInf] \<and>
   sum_num (map Row.sales (rows (aggregate env_utc overflow_sales))) = PInf \<and>
   sum_num (map total_sales (productTotalsArr (aggregate env_utc overflow_sales))) = NaN"
proof -
  have a: "map Row.sales (rows (aggregate env_utc rounding_products)) =
     [Fin 1, Fin 10000000000000000, Fin 1, Fin 1] \<and>
   map total_sales (productTotalsArr (aggregate env_utc rounding_products)) =
     [Fin 10000000000000000, Fin 2] \<and>
   sum_num (map Row.sales (rows (aggregate env_utc rounding_products))) = Fin 10000000000000000 \<and>
   sum_num (map total_sales (productTotalsArr (aggregate env_utc rounding_products))) =
     Fin 10000000000000002"
    by (simp add: rows_rounding_products totals_rounding_products sum_num_def fl_int_simps fl_big)
  have b: "map Row.sales (rows (aggregate env_utc nan_month)) = [PInf, NInf, Fin 5] \<and>
   map total_sales (productTotalsArr (aggregate env_utc nan_month)) = [Fin 5] \<and>
   sum_num (map Row.sales (rows (aggregate env_utc nan_month))) = NaN \<and>
   sum_num (map total_sales (productTotalsArr (aggregate env_utc nan_month))) = Fin 5"
    unfolding totals_nan_month sum_rows_nan_month
    by (simp add: rows_nan rowsU_nan sum_num_def fl_int_simps)
  have c: "map Row.sales (rows (aggregate env_utc overflow_sales)) =
     [Fin (2 ^ 1023), Fin (2 ^ 1023), Fin (- (2 ^ 1023)), Fin (- (2 ^ 1023))] \<and>
   map total_sales (productTotalsArr (aggregate env_utc overflow_sales)) = [PInf, NInf] \<and>
   sum_num (map Row.sales (rows (aggregate env_utc overflow_sales))) = PInf \<and>
   sum_num (map total_sales (productTotalsArr (aggregate env_utc overflow_sales))) = NaN"
    unfolding totals_overflow_sales sum_rows_overflow_sales
    by (simp add: rows_overflow_sales sum_num_def)
  show ?thesis
    using a b c by blast
qed

text \<open>
  Claim C10 (monthly rollup conservation), amended.  The transactions of the buckets sum
  to the number of rows and every bucket has at least one transaction; when the sales of
  the rows are integers whose absolute values sum to at most \<open>2\<^sup>5\<^sup>3\<close>, the sum of
  \<open>sales\<close> over the buckets equals the sum of \<open>sales\<close> over the rows (sums in double
  arithmetic, from the left).
\<close>

theorem monthly_conservation:
  "(\<Sum>b\<leftarrow>monthly (aggregate env data). transactions b) = length (rows (aggregate env data)) \<and>
   (\<forall>b\<in>set (monthly (aggregate env data)). 1 \<le> transactions b) \<and>
   (exact_sales (rows (aggregate env data)) \<longrightarrow>
      sum_num (map MonthlyRow.sales (monthly (aggregate env data))) =
      sum_num (map Row.sales (rows (aggregate env data))))"
  using transactions_total transactions_positive months_conserved by blast

theorem monthly_conservation_witness:
  "exact_sales (rows (aggregate env_utc three_months)) \<and>
   map transactions (monthly (aggregate env_utc three_months)) = [1, 1, 1] \<and>
   length (rows (aggregate env_utc three_months)) = 3 \<and>
   sum_num (map MonthlyRow.sales (monthly (aggregate env_utc three_months))) = Fin 340 \<and>
   sum_num (map Row.sales (rows (aggregate env_utc three_months))) = Fin 340"
  using monthly_conservation[of env_utc three_months] exact_three_months
  by (simp add: monthly3 sum_num_def fl_int_simps)

theorem monthly_sales_counterexample:
  "map Row.sales (rows (aggregate env_utc rounding_months)) =
     [Fin 10000000000000000, Fin 1, Fin 1, Fin 1] \<and>
   map MonthlyRow.sales (monthly (aggregate env_utc rounding_months)) =
     [Fin 10000000000000000, Fin 2] \<and>
   sum_num (map Row.sales (rows (aggregate env_utc rounding_months))) = Fin 10000000000000000 \<and>
   sum_num (map MonthlyRow.sales (monthly (aggregate env_utc rounding_months))) =
     Fin 10000000000000002 \<and>
   map Row.sales (rows (aggregate env_utc overflow_sales)) =
     [Fin (2 ^ 1023), Fin (2 ^ 1023), Fin (- (2 ^ 1023)), Fin (- (2 ^ 1023))] \<and>
   map MonthlyRow.sales (monthly (aggregate env_utc overflow_sales)) = [PInf, NInf] \<and>
   sum_num (map Row.sales (rows (aggregate env_utc overflow_sales))) = PInf \<and>
   sum_num (map MonthlyRow.sales (monthly (aggregate env_utc overflow_sales))) = NaN"
proof -
  have a: "map Row.sales (rows (aggregate env_utc rounding_months)) =
     [Fin 10000000000000000, Fin 1, Fin 1, Fin 1] \<and>
   map MonthlyRow.sales (monthly (aggregate env_utc rounding_months)) =
     [Fin 10000000000000000, Fin 2] \<and>
   sum_num (map Row.sales (rows (aggregate env_utc rounding_months))) = Fin 10000000000000000 \<and>
   sum_num (map MonthlyRow.sales (monthly (aggregate env_utc rounding_months))) =
     Fin 10000000000000002"
    by (simp add: rows_rounding_months monthly_rounding_months sum_num_def fl_int_simps fl_big)
  have c: "map Row.sales (rows (aggregate env_utc overflow_sales)) =
     [Fin (2 ^ 1023), Fin (2 ^ 1023), Fin (- (2 ^ 1023)), Fin (- (2 ^ 1023))] \<and>
   map MonthlyRow.sales (monthly (aggregate env_utc overflow_sales)) = [PInf, NInf] \<and>
   sum_num (map Row.sales (rows (aggregate env_utc overflow_sales))) = PInf \<and>
   sum_num (map MonthlyRow.sales (monthly (aggregate env_utc overflow_sales))) = NaN"
    unfolding monthly_overflow_sales sum_rows_overflow_sales
    by (simp add: rows_overflow_sales sum_num_def)
  show ?thesis
    using a c by blast
qed




text \<open>
  Claim C9 (purity and determinism).  On a store holding the input array and its records,
  a call of \<open>aggregate\<close> leaves every cell that existed before the call as it was (it
  only adds cells), so the input array and the records are not mutated; what is read
  through the returned references is the value of the function on the records; a second
  call on the same array, in the same host, returns references to a structurally
  identical result and leaves the first result as it was.  When the input cannot be read
  the call throws and the store is unchanged.
\<close>

theorem purity:
  "(\<forall>e. read_data s a = Inl e \<longrightarrow> aggregate_st env a s = (Inl e, s)) \<and>
   (\<forall>data. read_data s a = Inr data \<longrightarrow>
      (\<exists>r s'. aggregate_st env a s = (Inr r, s') \<and> take (length s) s' = s \<and>
         read_data s' a = Inr data \<and> view s' r = aggregate env data \<and>
         (\<exists>r2 s2. aggregate_st env a s' = (Inr r2, s2) \<and> take (length s') s2 = s' \<and>
            view s2 r2 = view s' r \<and> view s2 r = view s' r)))"
proof (intro conjI allI impI)
  fix e
  assume "read_data s a = Inl e"
  then show "aggregate_st env a s = (Inl e, s)"
    by (simp add: aggregate_st_def)
next
  fix data
  assume d: "read_data s a = Inr data"
  from aggregate_st_pure[OF d, of env] obtain r s' where
    1: "aggregate_st env a s = (Inr r, s')" "take (length s) s' = s" "read_data s' a = Inr data"
       "view s' r = aggregate env data"
       "rows_ref r < length s'" "totals_ref r < length s'" "monthly_ref r < length s'"
    by blast
  from aggregate_st_pure[OF 1(3), of env] obtain r2 s2 where
    2: "aggregate_st env a s' = (Inr r2, s2)" "take (length s') s2 = s'"
       "view s2 r2 = aggregate env data"
    by blast
  from 2(2) have "s2 = s' @ drop (length s') s2"
    by (metis append_take_drop_id)
  then have "view s2 r = view s' r"
    using view_old[OF 1(5,6,7)] by metis
  then show "\<exists>r s'. aggregate_st env a s = (Inr r, s') \<and> take (length s) s' = s \<and>
         read_data s' a = Inr data \<and> view s' r = aggregate env data \<and>
         (\<exists>r2 s2. aggregate_st env a s' = (Inr r2, s2) \<and> take (length s') s2 = s' \<and>
            view s2 r2 = view s' r \<and> view s2 r = view s' r)"
    using 1 2 by auto
qed

theorem purity_witness:
  "read_data store2 0 = Inr [rec_sale 5 ''A'' (VNum (Fin 1)), rec_sale 0 ''B'' (VNum (Fin 7))] \<and>
   take (length store2) (snd (aggregate_st env_utc 0 store2)) = store2 \<and>
   aggregate_st env_utc 1 store2 = (Inl TypeError, store2)"
  using purity[of store2 0 env_utc] purity[of store2 1 env_utc] read_store2 read_store2_bad
  by auto

end
